theory Spec2Isabelle
  imports Complex_Main
begin

section \<open>Data model\<close>

text \<open>
  Both modules declare the same class \<^verbatim>\<open>Dish\<close>: an identifier, a type and a
  status string that starts as \<^verbatim>\<open>"dirty"\<close>.  One record serves both.
\<close>

record dish =
  dish_id :: int
  dish_type :: string
  status :: string

definition Dish :: "int \<Rightarrow> string \<Rightarrow> dish" where
  "Dish i ty = \<lparr>dish_id = i, dish_type = ty, status = ''dirty''\<rparr>"

text \<open>
  The four stages.  \<open>PreRinse\<close> owns \<^verbatim>\<open>queue_1\<close> and is run by
  \<^verbatim>\<open>worker_pre_rinse\<close>, \<open>Wash\<close> owns \<^verbatim>\<open>queue_2\<close>, \<open>Dry\<close> owns
  \<^verbatim>\<open>queue_3\<close> and \<open>Store\<close> owns \<^verbatim>\<open>queue_4\<close>.
\<close>

datatype stage = PreRinse | Wash | Dry | Store

definition stages :: "stage list" where
  "stages = [PreRinse, Wash, Dry, Store]"

fun target :: "stage \<Rightarrow> string" where
  "target PreRinse = ''pre-rinsed''"
| "target Wash = ''washed''"
| "target Dry = ''dried''"
| "target Store = ''stored''"

fun next_stage :: "stage \<Rightarrow> stage option" where
  "next_stage PreRinse = Some Wash"
| "next_stage Wash = Some Dry"
| "next_stage Dry = Some Store"
| "next_stage Store = None"

datatype error = ZeroDivisionError | ValueError | OverflowError

text \<open>
  Python's floats and their arithmetic belong to the interpreter.  A float is a value
  of a type \<open>'f\<close>, and the operations the two modules use are parameters: the float
  of an integer that has one, the quotient of two floats with a nonzero divisor
  (rounded, possibly infinite), the test \<^verbatim>\<open>x == 0.0\<close>, and the correctly rounded
  quotient of two integers.
\<close>

datatype 'f pyval = PyInt int | PyFloat 'f

record 'f float_ops =
  float_of_int :: "int \<Rightarrow> 'f"
  float_div :: "'f \<Rightarrow> 'f \<Rightarrow> 'f"
  float_is_zero :: "'f \<Rightarrow> bool"
  int_div :: "int \<Rightarrow> int \<Rightarrow> 'f"

text \<open>
  An integer has no float, and its conversion raises \<^verbatim>\<open>OverflowError\<close>, when it
  rounds to \<open>2 ^ 1024\<close> or beyond: the largest double is \<open>2 ^ 1024 - 2 ^ 971\<close> and
  the rounding is to nearest.  The quotient of two integers raises it on the same
  bound.
\<close>

definition double_limit :: int where
  "double_limit = 2 ^ 1024 - 2 ^ 970"

definition too_large :: "int \<Rightarrow> bool" where
  "too_large n \<longleftrightarrow> double_limit \<le> \<bar>n\<bar>"

definition quotient_too_large :: "int \<Rightarrow> int \<Rightarrow> bool" where
  "quotient_too_large a b \<longleftrightarrow> double_limit * \<bar>b\<bar> \<le> \<bar>a\<bar>"

text \<open>
  Python's \<^verbatim>\<open>/\<close> in the three forms the modules use.  With a float on one side
  the integer is converted first, and then a zero divisor raises
  \<^verbatim>\<open>ZeroDivisionError\<close>; the float of an integer is zero exactly when the integer
  is.  With two integers the zero divisor is tested first.
\<close>

definition int_by_float :: "'f float_ops \<Rightarrow> int \<Rightarrow> 'f \<Rightarrow> error + 'f" where
  "int_by_float ops a b =
     (if too_large a then Inl OverflowError
      else if float_is_zero ops b then Inl ZeroDivisionError
      else Inr (float_div ops (float_of_int ops a) b))"

definition float_by_int :: "'f float_ops \<Rightarrow> 'f \<Rightarrow> int \<Rightarrow> error + 'f" where
  "float_by_int ops a b =
     (if too_large b then Inl OverflowError
      else if b = 0 then Inl ZeroDivisionError
      else Inr (float_div ops a (float_of_int ops b)))"

definition int_by_int :: "'f float_ops \<Rightarrow> int \<Rightarrow> int \<Rightarrow> error + 'f" where
  "int_by_int ops a b =
     (if b = 0 then Inl ZeroDivisionError
      else if quotient_too_large a b then Inl OverflowError
      else Inr (int_div ops a b))"

section \<open>The item generator\<close>

text \<open>
  \<^verbatim>\<open>_generate_dishes\<close> draws one type per dish from the shared random source.
  The source \<^verbatim>\<open>random.choice\<close> belongs to the Python library: it is a parameter
  \<open>choice\<close> taking the generator state and the sequence, and returning the element
  drawn and the next state.  \<^verbatim>\<open>range(n)\<close> is empty for \<open>n \<le> 0\<close>.
\<close>

definition range_py :: "int \<Rightarrow> int list" where
  "range_py n = map int [0..<nat n]"

definition dish_types :: "string list" where
  "dish_types = [''plate'', ''bowl'', ''utensil'']"

fun generate_loop :: "('r \<Rightarrow> string list \<Rightarrow> string \<times> 'r) \<Rightarrow> int list \<Rightarrow> 'r \<Rightarrow> dish list
    \<Rightarrow> dish list \<times> 'r" where
  "generate_loop choice [] r acc = (acc, r)"
| "generate_loop choice (i # rest) r acc =
     (case choice r dish_types of
        (ty, r') \<Rightarrow> generate_loop choice rest r' (acc @ [Dish (i + 1) ty]))"

text \<open>\<^verbatim>\<open>SequentialDishwasher._generate_dishes\<close>\<close>

definition seq_generate_dishes :: "('r \<Rightarrow> string list \<Rightarrow> string \<times> 'r) \<Rightarrow> 'r \<Rightarrow> int
    \<Rightarrow> dish list \<times> 'r" where
  "seq_generate_dishes choice r n = generate_loop choice (range_py n) r []"

text \<open>\<^verbatim>\<open>ParallelDishwasher._generate_dishes\<close>\<close>

definition par_generate_dishes :: "('r \<Rightarrow> string list \<Rightarrow> string \<times> 'r) \<Rightarrow> 'r \<Rightarrow> int
    \<Rightarrow> dish list \<times> 'r" where
  "par_generate_dishes choice r n = generate_loop choice (range_py n) r []"

section \<open>The sequential strategy\<close>

text \<open>
  Each stage function sleeps and then overwrites the status.  The sleep and the
  latency drawn for it only move the clock, which enters the model as the elapsed
  time \<open>end_time - start_time\<close>, a float, handed to \<open>process_sequential\<close>.
\<close>

definition pre_rinse :: "dish \<Rightarrow> dish" where
  "pre_rinse d = d\<lparr>status := ''pre-rinsed''\<rparr>"

definition wash :: "dish \<Rightarrow> dish" where
  "wash d = d\<lparr>status := ''washed''\<rparr>"

definition dry :: "dish \<Rightarrow> dish" where
  "dry d = d\<lparr>status := ''dried''\<rparr>"

definition store :: "dish \<Rightarrow> dish" where
  "store d = d\<lparr>status := ''stored''\<rparr>"

text \<open>
  The end of \<^verbatim>\<open>process_sequential\<close>: throughput, the average, and the
  dictionary.  The print statements of both modules are left out, but for the quotient
  the parallel one computes: they format numbers already computed.
\<close>

definition seq_metrics :: "'f float_ops \<Rightarrow> 'f \<Rightarrow> int \<Rightarrow> error + (string \<rightharpoonup> 'f pyval)" where
  "seq_metrics ops elapsed_time n =
     (case int_by_float ops n elapsed_time of
        Inl e \<Rightarrow> Inl e
      | Inr throughput \<Rightarrow>
          (case float_by_int ops elapsed_time n of
             Inl e \<Rightarrow> Inl e
           | Inr avg_time_per_dish \<Rightarrow>
               Inr [''execution_time'' \<mapsto> PyFloat elapsed_time,
                    ''throughput'' \<mapsto> PyFloat throughput,
                    ''avg_time_per_dish'' \<mapsto> PyFloat avg_time_per_dish,
                    ''dishes_processed'' \<mapsto> PyInt n]))"

text \<open>
  \<^verbatim>\<open>process_sequential\<close>: the dishes after the loop, and the returned dictionary or
  the exception raised while computing it.
\<close>

definition process_sequential :: "'f float_ops \<Rightarrow> int \<Rightarrow> dish list \<Rightarrow> 'f
    \<Rightarrow> dish list \<times> (error + (string \<rightharpoonup> 'f pyval))" where
  "process_sequential ops n ds elapsed_time =
     (map (\<lambda>d. store (dry (wash (pre_rinse d)))) ds, seq_metrics ops elapsed_time n)"

section \<open>The concurrent pipeline\<close>

text \<open>
  A dish object is shared by reference between \<^verbatim>\<open>self.dishes\<close>, the queues and
  \<^verbatim>\<open>completed_dishes\<close>.  The objects live in the list \<open>dishes\<close>; a reference is
  the position of the object in that list.

  Program points of a worker thread (all four worker functions have the same shape):
  not yet started, at the loop test, at \<^verbatim>\<open>get(timeout=0.1)\<close>, at the sleep, at the
  status assignment, at the hand-over to the output, at \<^verbatim>\<open>task_done()\<close>, returned,
  or terminated by an exception.
\<close>

datatype wpc = Idle | AtLoop | AtGet | AtSleep nat | AtStatus nat | AtPut nat
  | AtTaskDone nat | Exited | Raised

text \<open>
  Program points of \<^verbatim>\<open>process_parallel\<close>: the loop starting the threads (with the
  threads still to start), the feeding loop (with the dishes still to feed), the four
  \<^verbatim>\<open>join()\<close> calls on the queues, \<^verbatim>\<open>stop_event.set()\<close>, the loop joining the
  threads, the read of \<^verbatim>\<open>len(self.completed_dishes)\<close>, and the metrics
  computation with the length read.
\<close>

datatype cpc = CStart "stage list" | CFeed "nat list" | CJoinQ stage | CSetStop
  | CJoinT "stage list" | CLen | CDone nat

record state =
  num_dishes :: int
  dishes :: "dish list"
  queue :: "stage \<Rightarrow> nat list"
  unfinished_tasks :: "stage \<Rightarrow> int"
  completed_dishes :: "nat list"
  stop_event :: bool
  worker :: "stage \<Rightarrow> wpc"
  coord :: cpc

text \<open>What a step does, as seen from outside.\<close>

datatype action =
    ThreadStart stage
  | ForEnd
  | Put stage nat
  | QueueJoin stage
  | StopSet
  | ThreadJoin stage
  | Len nat
  | LoopCheck stage
  | Exit stage
  | GetEmpty stage
  | Get stage nat
  | Sleep stage
  | SetStatus stage nat string
  | Append nat
  | TaskDone stage nat
  | TaskDoneError stage

datatype thread = Main | Worker stage

text \<open>
  \<^verbatim>\<open>Queue.put\<close>: append at the tail and count one more unfinished task.  The queues
  are unbounded, so \<^verbatim>\<open>put\<close> never blocks.
\<close>

definition put :: "stage \<Rightarrow> nat \<Rightarrow> state \<Rightarrow> state" where
  "put k d s = s\<lparr>queue := (queue s)(k := queue s k @ [d]),
                 unfinished_tasks := (unfinished_tasks s)(k := unfinished_tasks s k + 1)\<rparr>"

text \<open>
  The output of a stage: the next queue, or \<^verbatim>\<open>completed_dishes.append\<close> under the
  lock for the last stage.
\<close>

definition hand_over :: "stage \<Rightarrow> nat \<Rightarrow> state \<Rightarrow> action \<times> state" where
  "hand_over k d s =
     (case next_stage k of
        Some k' \<Rightarrow> (Put k' d, put k' d s)
      | None \<Rightarrow> (Append d, s\<lparr>completed_dishes := completed_dishes s @ [d]\<rparr>))"

text \<open>
  One atomic step of the worker of stage \<open>k\<close>.  \<^verbatim>\<open>get(timeout=0.1)\<close> returns the
  head of the queue, or raises \<^verbatim>\<open>Empty\<close> when the queue is empty, and the handler
  continues with the loop test.  \<^verbatim>\<open>task_done()\<close> raises \<^verbatim>\<open>ValueError\<close> when no
  task is unfinished; nothing catches it, so the thread ends.
\<close>

definition worker_step :: "stage \<Rightarrow> state \<Rightarrow> (action \<times> state) option" where
  "worker_step k s =
     (case worker s k of
        Idle \<Rightarrow> None
      | AtLoop \<Rightarrow>
          if stop_event s then Some (Exit k, s\<lparr>worker := (worker s)(k := Exited)\<rparr>)
          else Some (LoopCheck k, s\<lparr>worker := (worker s)(k := AtGet)\<rparr>)
      | AtGet \<Rightarrow>
          (case queue s k of
             [] \<Rightarrow> Some (GetEmpty k, s\<lparr>worker := (worker s)(k := AtLoop)\<rparr>)
           | d # ds \<Rightarrow>
               Some (Get k d, s\<lparr>queue := (queue s)(k := ds),
                                worker := (worker s)(k := AtSleep d)\<rparr>))
      | AtSleep d \<Rightarrow> Some (Sleep k, s\<lparr>worker := (worker s)(k := AtStatus d)\<rparr>)
      | AtStatus d \<Rightarrow>
          Some (SetStatus k d (target k),
                s\<lparr>dishes := (dishes s)[d := (dishes s ! d)\<lparr>status := target k\<rparr>],
                  worker := (worker s)(k := AtPut d)\<rparr>)
      | AtPut d \<Rightarrow>
          (case hand_over k d s of
             (a, s') \<Rightarrow> Some (a, s'\<lparr>worker := (worker s')(k := AtTaskDone d)\<rparr>))
      | AtTaskDone d \<Rightarrow>
          if unfinished_tasks s k \<le> 0
          then Some (TaskDoneError k, s\<lparr>worker := (worker s)(k := Raised)\<rparr>)
          else Some (TaskDone k d,
                     s\<lparr>unfinished_tasks := (unfinished_tasks s)(k := unfinished_tasks s k - 1),
                       worker := (worker s)(k := AtLoop)\<rparr>)
      | Exited \<Rightarrow> None
      | Raised \<Rightarrow> None)"

text \<open>
  One atomic step of \<^verbatim>\<open>process_parallel\<close>.  \<^verbatim>\<open>queue.join()\<close> returns only when
  the queue's count of unfinished tasks is zero; until then the coordinator has no
  step.  \<^verbatim>\<open>thread.join(timeout=1.0)\<close> returns whether or not the thread has ended.
\<close>

definition coord_step :: "state \<Rightarrow> (action \<times> state) option" where
  "coord_step s =
     (case coord s of
        CStart [] \<Rightarrow> Some (ForEnd, s\<lparr>coord := CFeed [0..<length (dishes s)]\<rparr>)
      | CStart (k # ks) \<Rightarrow>
          Some (ThreadStart k, s\<lparr>worker := (worker s)(k := AtLoop), coord := CStart ks\<rparr>)
      | CFeed [] \<Rightarrow> Some (ForEnd, s\<lparr>coord := CJoinQ PreRinse\<rparr>)
      | CFeed (d # ds) \<Rightarrow> Some (Put PreRinse d, (put PreRinse d s)\<lparr>coord := CFeed ds\<rparr>)
      | CJoinQ k \<Rightarrow>
          if unfinished_tasks s k = 0
          then Some (QueueJoin k,
                     s\<lparr>coord := (case next_stage k of Some k' \<Rightarrow> CJoinQ k' | None \<Rightarrow> CSetStop)\<rparr>)
          else None
      | CSetStop \<Rightarrow> Some (StopSet, s\<lparr>stop_event := True, coord := CJoinT stages\<rparr>)
      | CJoinT [] \<Rightarrow> Some (ForEnd, s\<lparr>coord := CLen\<rparr>)
      | CJoinT (k # ks) \<Rightarrow> Some (ThreadJoin k, s\<lparr>coord := CJoinT ks\<rparr>)
      | CLen \<Rightarrow>
          Some (Len (length (completed_dishes s)),
                s\<lparr>coord := CDone (length (completed_dishes s))\<rparr>)
      | CDone c \<Rightarrow> None)"

definition step :: "thread \<Rightarrow> state \<Rightarrow> (action \<times> state) option" where
  "step t s = (case t of Main \<Rightarrow> coord_step s | Worker k \<Rightarrow> worker_step k s)"

text \<open>
  A run under a schedule (the thread that moves at each step), from a trace and a
  state.  A schedule that picks a thread with no step is not a run.
\<close>

fun exec :: "thread list \<Rightarrow> action list \<times> state \<Rightarrow> (action list \<times> state) option" where
  "exec [] c = Some c"
| "exec (t # ts) (tr, s) =
     (case step t s of None \<Rightarrow> None | Some (a, s') \<Rightarrow> exec ts (tr @ [a], s'))"

text \<open>
  The object after \<^verbatim>\<open>ParallelDishwasher.__init__\<close>, at the entry of
  \<^verbatim>\<open>process_parallel\<close> with its four threads created.
\<close>

definition init :: "int \<Rightarrow> dish list \<Rightarrow> state" where
  "init n ds = \<lparr>num_dishes = n, dishes = ds, queue = (\<lambda>_. []), unfinished_tasks = (\<lambda>_. 0),
                completed_dishes = [], stop_event = False, worker = (\<lambda>_. Idle),
                coord = CStart stages\<rparr>"

text \<open>
  The end of \<^verbatim>\<open>process_parallel\<close>: throughput, the guarded average, the
  efficiency printed from \<^verbatim>\<open>dishes_completed/self.num_dishes\<close>, and the dictionary.
\<close>

definition par_metrics :: "'f float_ops \<Rightarrow> 'f \<Rightarrow> nat \<Rightarrow> int
    \<Rightarrow> error + (string \<rightharpoonup> 'f pyval)" where
  "par_metrics ops elapsed_time dishes_completed n =
     (case int_by_float ops (int dishes_completed) elapsed_time of
        Inl e \<Rightarrow> Inl e
      | Inr throughput \<Rightarrow>
          (case (if dishes_completed > 0
                 then map_sum id PyFloat (float_by_int ops elapsed_time (int dishes_completed))
                 else Inr (PyInt 0)) of
             Inl e \<Rightarrow> Inl e
           | Inr avg_time_per_dish \<Rightarrow>
               (case int_by_int ops (int dishes_completed) n of
                  Inl e \<Rightarrow> Inl e
                | Inr efficiency \<Rightarrow>
                    Inr [''execution_time'' \<mapsto> PyFloat elapsed_time,
                         ''throughput'' \<mapsto> PyFloat throughput,
                         ''avg_time_per_dish'' \<mapsto> avg_time_per_dish,
                         ''dishes_processed'' \<mapsto> PyInt (int dishes_completed)])))"

definition process_parallel :: "'f float_ops \<Rightarrow> 'f \<Rightarrow> state
    \<Rightarrow> (error + (string \<rightharpoonup> 'f pyval)) option" where
  "process_parallel ops elapsed_time s =
     (case coord s of
        CDone c \<Rightarrow> Some (par_metrics ops elapsed_time c (num_dishes s))
      | _ \<Rightarrow> None)"

text \<open>
  \<^verbatim>\<open>ParallelDishwasher(num_dishes)\<close> followed by the entry of
  \<^verbatim>\<open>process_parallel\<close>: the dishes come from the generator.
\<close>

definition ParallelDishwasher :: "('r \<Rightarrow> string list \<Rightarrow> string \<times> 'r) \<Rightarrow> 'r \<Rightarrow> int \<Rightarrow> state" where
  "ParallelDishwasher choice r n = init n (fst (par_generate_dishes choice r n))"

section \<open>Observations on runs\<close>

text \<open>
  What a trace says about one queue: the dishes put into it, taken from it and
  acknowledged by \<^verbatim>\<open>task_done()\<close>, and the dishes its worker handed to its output.
\<close>

fun enq_of :: "stage \<Rightarrow> action \<Rightarrow> nat list" where
  "enq_of k (Put k' d) = (if k' = k then [d] else [])"
| "enq_of k _ = []"

fun got_of :: "stage \<Rightarrow> action \<Rightarrow> nat list" where
  "got_of k (Get k' d) = (if k' = k then [d] else [])"
| "got_of k _ = []"

fun acked_of :: "stage \<Rightarrow> action \<Rightarrow> nat list" where
  "acked_of k (TaskDone k' d) = (if k' = k then [d] else [])"
| "acked_of k _ = []"

fun handed_of :: "stage \<Rightarrow> action \<Rightarrow> nat list" where
  "handed_of k (Put k' d) = (if next_stage k = Some k' then [d] else [])"
| "handed_of k (Append d) = (if next_stage k = None then [d] else [])"
| "handed_of k _ = []"

definition enq :: "stage \<Rightarrow> action list \<Rightarrow> nat list" where
  "enq k tr = concat (map (enq_of k) tr)"

definition got :: "stage \<Rightarrow> action list \<Rightarrow> nat list" where
  "got k tr = concat (map (got_of k) tr)"

definition acked :: "stage \<Rightarrow> action list \<Rightarrow> nat list" where
  "acked k tr = concat (map (acked_of k) tr)"

definition handed :: "stage \<Rightarrow> action list \<Rightarrow> nat list" where
  "handed k tr = concat (map (handed_of k) tr)"

text \<open>
  The work of stage \<open>k\<close> on one dish, in the order of the source: take it, set its
  status, hand it to the output, acknowledge it.  \<open>item_action k\<close> selects the steps of
  the worker of stage \<open>k\<close> that touch a dish.
\<close>

definition hand :: "stage \<Rightarrow> nat \<Rightarrow> action" where
  "hand k d = (case next_stage k of Some k' \<Rightarrow> Put k' d | None \<Rightarrow> Append d)"

definition cycle :: "stage \<Rightarrow> nat \<Rightarrow> action list" where
  "cycle k d = [Get k d, SetStatus k d (target k), hand k d, TaskDone k d]"

fun item_action :: "stage \<Rightarrow> action \<Rightarrow> bool" where
  "item_action k (Get k' d) = (k' = k)"
| "item_action k (SetStatus k' d t) = (k' = k)"
| "item_action k (Put k' d) = (next_stage k = Some k')"
| "item_action k (Append d) = (next_stage k = None)"
| "item_action k (TaskDone k' d) = (k' = k)"
| "item_action k _ = False"

text \<open>
  The steps of \<^verbatim>\<open>process_parallel\<close> that wait for the queues, raise the shutdown
  flag and join the threads, and the order the source gives them.
\<close>

fun protocol :: "action \<Rightarrow> bool" where
  "protocol (QueueJoin k) = True"
| "protocol StopSet = True"
| "protocol (ThreadJoin k) = True"
| "protocol _ = False"

definition protocol_order :: "action list" where
  "protocol_order = [QueueJoin PreRinse, QueueJoin Wash, QueueJoin Dry, QueueJoin Store, StopSet,
     ThreadJoin PreRinse, ThreadJoin Wash, ThreadJoin Dry, ThreadJoin Store]"

text \<open>
  The five status values in their order, and the values the status of dish \<open>d\<close> has
  had along a trace: the value at creation followed by every value assigned.
\<close>

definition status_order :: "string list" where
  "status_order = [''dirty'', ''pre-rinsed'', ''washed'', ''dried'', ''stored'']"

fun assigned_of :: "nat \<Rightarrow> action \<Rightarrow> string list" where
  "assigned_of d (SetStatus k d' t) = (if d' = d then [t] else [])"
| "assigned_of d _ = []"

definition history :: "nat \<Rightarrow> action list \<Rightarrow> string list" where
  "history d tr = ''dirty'' # concat (map (assigned_of d) tr)"



section \<open>Invariants of the pipeline\<close>

text \<open>
  The dishes a worker has taken and not yet handed over, those it has taken and not
  yet acknowledged, the one it has handed over and not yet acknowledged, and the part
  of the current cycle it has done.
\<close>

fun holding :: "wpc \<Rightarrow> nat list" where
  "holding (AtSleep d) = [d]"
| "holding (AtStatus d) = [d]"
| "holding (AtPut d) = [d]"
| "holding _ = []"

fun inflight :: "wpc \<Rightarrow> nat list" where
  "inflight (AtSleep d) = [d]"
| "inflight (AtStatus d) = [d]"
| "inflight (AtPut d) = [d]"
| "inflight (AtTaskDone d) = [d]"
| "inflight _ = []"

fun unacked :: "wpc \<Rightarrow> nat list" where
  "unacked (AtTaskDone d) = [d]"
| "unacked _ = []"

fun progress :: "wpc \<Rightarrow> nat" where
  "progress (AtSleep d) = 1"
| "progress (AtStatus d) = 1"
| "progress (AtPut d) = 2"
| "progress (AtTaskDone d) = 3"
| "progress _ = 0"

definition partial :: "stage \<Rightarrow> wpc \<Rightarrow> action list" where
  "partial k w = concat (map (\<lambda>d. take (progress w) (cycle k d)) (inflight w))"

text \<open>
  The dishes not yet fed, the position of a stage in the pipeline, how far the
  coordinator has come, the status of the dishes that enter a stage, and what the
  coordinator still has to do of its protocol.
\<close>

fun feed_rest :: "cpc \<Rightarrow> nat \<Rightarrow> nat list" where
  "feed_rest (CStart ks) n = [0..<n]"
| "feed_rest (CFeed ds) n = ds"
| "feed_rest _ n = []"

fun idx :: "stage \<Rightarrow> nat" where
  "idx PreRinse = 0"
| "idx Wash = 1"
| "idx Dry = 2"
| "idx Store = 3"

fun rank :: "cpc \<Rightarrow> nat" where
  "rank (CStart ks) = 0"
| "rank (CFeed ds) = 1"
| "rank (CJoinQ k) = 2 + idx k"
| "rank CSetStop = 6"
| "rank (CJoinT ks) = 7"
| "rank CLen = 8"
| "rank (CDone c) = 9"

fun source :: "stage \<Rightarrow> string" where
  "source PreRinse = ''dirty''"
| "source Wash = ''pre-rinsed''"
| "source Dry = ''washed''"
| "source Store = ''dried''"

fun todo :: "cpc \<Rightarrow> action list" where
  "todo (CStart ks) = protocol_order"
| "todo (CFeed ds) = protocol_order"
| "todo (CJoinQ k) = drop (idx k) protocol_order"
| "todo CSetStop = drop 4 protocol_order"
| "todo (CJoinT ks) = map ThreadJoin ks"
| "todo CLen = []"
| "todo (CDone c) = []"

text \<open>
  Every dish is at exactly one place, and the places read from the sink back to the
  feeder give the dishes in the order of \<^verbatim>\<open>self.dishes\<close>.
\<close>

definition seg :: "state \<Rightarrow> stage \<Rightarrow> nat list" where
  "seg s k = holding (worker s k) @ queue s k"

definition pipeline :: "state \<Rightarrow> nat list" where
  "pipeline s = completed_dishes s @ seg s Store @ seg s Dry @ seg s Wash @ seg s PreRinse
     @ feed_rest (coord s) (length (dishes s))"

definition inv_order :: "state \<Rightarrow> bool" where
  "inv_order s \<longleftrightarrow> pipeline s = [0..<length (dishes s)]"

text \<open>
  The dishes downstream of stage \<open>k\<close> in a state: those in the sink, then those in
  the queues and hands of the stages after \<open>k\<close>, sink side first.
\<close>

fun later :: "stage \<Rightarrow> stage list" where
  "later PreRinse = [Store, Dry, Wash]"
| "later Wash = [Store, Dry]"
| "later Dry = [Store]"
| "later Store = []"

definition beyond :: "state \<Rightarrow> stage \<Rightarrow> nat list" where
  "beyond s k = completed_dishes s @ concat (map (seg s) (later k))"

text \<open>
  A queue's count of unfinished tasks is the number of dishes in it or with its worker;
  it is zero while nothing is fed and after the coordinator has waited for the queue.
\<close>

definition inv_count :: "state \<Rightarrow> bool" where
  "inv_count s \<longleftrightarrow>
     (\<forall>k. unfinished_tasks s k = int (length (inflight (worker s k)) + length (queue s k)))"

definition inv_phase :: "state \<Rightarrow> bool" where
  "inv_phase s \<longleftrightarrow>
     (\<forall>k. rank (coord s) = 0 \<or> 2 + idx k < rank (coord s) \<longrightarrow> unfinished_tasks s k = 0)"

text \<open>
  The flag is set exactly from \<^verbatim>\<open>stop_event.set()\<close> on, a worker has returned
  only under the flag, and no worker has died of an exception.
\<close>

definition inv_stop :: "state \<Rightarrow> bool" where
  "inv_stop s \<longleftrightarrow>
     (stop_event s \<longleftrightarrow> 7 \<le> rank (coord s)) \<and>
     (\<forall>k. worker s k = Exited \<longrightarrow> stop_event s) \<and>
     (\<forall>k. worker s k \<noteq> Raised)"

text \<open>The place of a dish determines its status.\<close>

definition inv_status :: "state \<Rightarrow> bool" where
  "inv_status s \<longleftrightarrow>
     (\<forall>d \<in> set (feed_rest (coord s) (length (dishes s))). status (dishes s ! d) = ''dirty'') \<and>
     (\<forall>k. \<forall>d \<in> set (queue s k). status (dishes s ! d) = source k) \<and>
     (\<forall>k d. worker s k = AtSleep d \<or> worker s k = AtStatus d \<longrightarrow>
        status (dishes s ! d) = source k) \<and>
     (\<forall>k d. worker s k = AtPut d \<longrightarrow> status (dishes s ! d) = target k) \<and>
     (\<forall>d \<in> set (completed_dishes s). status (dishes s ! d) = ''stored'')"

text \<open>Only the status of a dish ever changes, and \<^verbatim>\<open>num_dishes\<close> never does.\<close>

definition inv_frame :: "int \<Rightarrow> dish list \<Rightarrow> state \<Rightarrow> bool" where
  "inv_frame n ds s \<longleftrightarrow>
     num_dishes s = n \<and>
     map (\<lambda>d. d\<lparr>status := []\<rparr>) (dishes s) = map (\<lambda>d. d\<lparr>status := []\<rparr>) ds"

text \<open>The trace agrees with the state.\<close>

definition inv_log :: "action list \<Rightarrow> state \<Rightarrow> bool" where
  "inv_log tr s \<longleftrightarrow>
     (\<forall>k. enq k tr = acked k tr @ inflight (worker s k) @ queue s k) \<and>
     (\<forall>k. got k tr = acked k tr @ inflight (worker s k)) \<and>
     (\<forall>k. handed k tr = acked k tr @ unacked (worker s k))"

definition inv_cycle :: "action list \<Rightarrow> state \<Rightarrow> bool" where
  "inv_cycle tr s \<longleftrightarrow>
     (\<forall>k. filter (item_action k) tr
          = concat (map (cycle k) (acked k tr)) @ partial k (worker s k))"

definition inv_protocol :: "action list \<Rightarrow> state \<Rightarrow> bool" where
  "inv_protocol tr s \<longleftrightarrow>
     filter protocol tr @ todo (coord s) = protocol_order \<and>
     (StopSet \<in> set tr \<longleftrightarrow> stop_event s)"

definition inv_history :: "action list \<Rightarrow> state \<Rightarrow> bool" where
  "inv_history tr s \<longleftrightarrow>
     (\<forall>d < length (dishes s).
        history d tr = take (length (history d tr)) status_order \<and>
        status (dishes s ! d) = last (history d tr))"

definition inv_feed :: "action list \<Rightarrow> state \<Rightarrow> bool" where
  "inv_feed tr s \<longleftrightarrow>
     enq PreRinse tr @ feed_rest (coord s) (length (dishes s)) = [0..<length (dishes s)]"

definition inv_len :: "state \<Rightarrow> bool" where
  "inv_len s \<longleftrightarrow> (\<forall>c. coord s = CDone c \<longrightarrow> c = length (completed_dishes s))"

definition invariant :: "int \<Rightarrow> dish list \<Rightarrow> action list \<times> state \<Rightarrow> bool" where
  "invariant n ds c \<longleftrightarrow>
     (case c of (tr, s) \<Rightarrow>
        inv_order s \<and> inv_count s \<and> inv_phase s \<and> inv_stop s \<and> inv_status s \<and>
        inv_frame n ds s \<and> inv_log tr s \<and> inv_cycle tr s \<and> inv_protocol tr s \<and>
        inv_history tr s \<and> inv_feed tr s \<and> inv_len s)"

section \<open>Concrete runs\<close>

text \<open>
  An arithmetic without rounding as a stand-in for the floats of a concrete run, a
  deterministic stand-in for the random source, a schedule for two dishes up to
  \<^verbatim>\<open>stop_event.set()\<close> and to the end, one that stops when the first worker has
  set the status of the first dish, and the schedule of the coordinator alone, which is
  a run when nothing is fed.
\<close>

definition exact :: "real float_ops" where
  "exact = \<lparr>float_of_int = real_of_int, float_div = (\<lambda>a b. a / b),
             float_is_zero = (\<lambda>x. x = 0),
             int_div = (\<lambda>a b. real_of_int a / real_of_int b)\<rparr>"

definition pick :: "nat \<Rightarrow> string list \<Rightarrow> string \<times> nat" where
  "pick r xs = (xs ! (r mod length xs), Suc r)"

definition drain2 :: "thread list" where
  "drain2 = replicate 8 Main @ concat (map (\<lambda>k. replicate 12 (Worker k)) stages)
     @ replicate 5 Main"

definition sched2 :: "thread list" where
  "sched2 = drain2 @ map Worker stages @ replicate 6 Main"

definition mid2 :: "thread list" where
  "mid2 = replicate 8 Main @ replicate 4 (Worker PreRinse)"

definition main17 :: "thread list" where
  "main17 = [Main, Main, Main, Main, Main, Main, Main, Main, Main,
             Main, Main, Main, Main, Main, Main, Main, Main]"

text \<open>
  A schedule for any number \<open>m\<close> of dishes: the coordinator starts the threads and
  feeds, each worker in turn takes its queue through six steps a dish, and the
  coordinator does the rest.  \<open>waiting C s\<close> holds between these phases: the
  coordinator is at \<open>C\<close>, every worker is at its loop test, and the only unfinished
  tasks are the dishes in the queues.
\<close>

definition work :: "stage \<Rightarrow> nat \<Rightarrow> thread list" where
  "work k m = concat (replicate m (replicate 6 (Worker k)))"

definition plain_schedule :: "nat \<Rightarrow> thread list" where
  "plain_schedule m = replicate 5 Main @ replicate (Suc m) Main
     @ work PreRinse m @ work Wash m @ work Dry m @ work Store m @ replicate 11 Main"

definition waiting :: "cpc \<Rightarrow> state \<Rightarrow> bool" where
  "waiting C s \<longleftrightarrow>
     coord s = C \<and> \<not> stop_event s \<and>
     (\<forall>k. worker s k = AtLoop \<and> unfinished_tasks s k = int (length (queue s k)))"

section \<open>The cases of a step\<close>

lemma worker_step_cases:
  assumes "worker_step k s = Some (a, s')"
  obtains
    (exit) "worker s k = AtLoop" "stop_event s" "a = Exit k"
      "s' = s\<lparr>worker := (worker s)(k := Exited)\<rparr>"
  | (loop) "worker s k = AtLoop" "\<not> stop_event s" "a = LoopCheck k"
      "s' = s\<lparr>worker := (worker s)(k := AtGet)\<rparr>"
  | (empty) "worker s k = AtGet" "queue s k = []" "a = GetEmpty k"
      "s' = s\<lparr>worker := (worker s)(k := AtLoop)\<rparr>"
  | (get) d ds where "worker s k = AtGet" "queue s k = d # ds" "a = Get k d"
      "s' = s\<lparr>queue := (queue s)(k := ds), worker := (worker s)(k := AtSleep d)\<rparr>"
  | (sleep) d where "worker s k = AtSleep d" "a = Sleep k"
      "s' = s\<lparr>worker := (worker s)(k := AtStatus d)\<rparr>"
  | (status) d where "worker s k = AtStatus d" "a = SetStatus k d (target k)"
      "s' = s\<lparr>dishes := (dishes s)[d := (dishes s ! d)\<lparr>status := target k\<rparr>],
               worker := (worker s)(k := AtPut d)\<rparr>"
  | (put) d k' where "worker s k = AtPut d" "next_stage k = Some k'" "a = Put k' d"
      "s' = s\<lparr>queue := (queue s)(k' := queue s k' @ [d]),
               unfinished_tasks := (unfinished_tasks s)(k' := unfinished_tasks s k' + 1),
               worker := (worker s)(k := AtTaskDone d)\<rparr>"
  | (append) d where "worker s k = AtPut d" "k = Store" "a = Append d"
      "s' = s\<lparr>completed_dishes := completed_dishes s @ [d],
               worker := (worker s)(k := AtTaskDone d)\<rparr>"
  | (err) d where "worker s k = AtTaskDone d" "unfinished_tasks s k \<le> 0"
      "a = TaskDoneError k" "s' = s\<lparr>worker := (worker s)(k := Raised)\<rparr>"
  | (ack) d where "worker s k = AtTaskDone d" "0 < unfinished_tasks s k" "a = TaskDone k d"
      "s' = s\<lparr>unfinished_tasks := (unfinished_tasks s)(k := unfinished_tasks s k - 1),
               worker := (worker s)(k := AtLoop)\<rparr>"
proof (cases "worker s k")
  case AtLoop
  with assms that(1,2) show ?thesis
    by (cases "stop_event s") (simp_all add: worker_step_def)
next
  case AtGet
  with assms that(3,4) show ?thesis
    by (cases "queue s k") (simp_all add: worker_step_def)
next
  case (AtSleep d)
  with assms that(5) show ?thesis
    by (simp add: worker_step_def)
next
  case (AtStatus d)
  with assms that(6) show ?thesis
    by (simp add: worker_step_def)
next
  case (AtPut d)
  with assms that(7,8) show ?thesis
    by (cases k) (simp_all add: worker_step_def hand_over_def put_def)
next
  case (AtTaskDone d)
  with assms that(9,10) show ?thesis
    by (cases "unfinished_tasks s k \<le> 0") (simp_all add: worker_step_def)
qed (use assms in \<open>simp_all add: worker_step_def\<close>)

lemma coord_step_cases:
  assumes "coord_step s = Some (a, s')"
  obtains
    (started) "coord s = CStart []" "a = ForEnd"
      "s' = s\<lparr>coord := CFeed [0..<length (dishes s)]\<rparr>"
  | (start) k ks where "coord s = CStart (k # ks)" "a = ThreadStart k"
      "s' = s\<lparr>worker := (worker s)(k := AtLoop), coord := CStart ks\<rparr>"
  | (fed) "coord s = CFeed []" "a = ForEnd" "s' = s\<lparr>coord := CJoinQ PreRinse\<rparr>"
  | (feed) d ds where "coord s = CFeed (d # ds)" "a = Put PreRinse d"
      "s' = s\<lparr>queue := (queue s)(PreRinse := queue s PreRinse @ [d]),
               unfinished_tasks := (unfinished_tasks s)(PreRinse := unfinished_tasks s PreRinse + 1),
               coord := CFeed ds\<rparr>"
  | (joinq) k where "coord s = CJoinQ k" "unfinished_tasks s k = 0" "a = QueueJoin k"
      "s' = s\<lparr>coord := (case next_stage k of Some k' \<Rightarrow> CJoinQ k' | None \<Rightarrow> CSetStop)\<rparr>"
  | (stop) "coord s = CSetStop" "a = StopSet" "s' = s\<lparr>stop_event := True, coord := CJoinT stages\<rparr>"
  | (joined) "coord s = CJoinT []" "a = ForEnd" "s' = s\<lparr>coord := CLen\<rparr>"
  | (joint) k ks where "coord s = CJoinT (k # ks)" "a = ThreadJoin k" "s' = s\<lparr>coord := CJoinT ks\<rparr>"
  | (len) "coord s = CLen" "a = Len (length (completed_dishes s))"
      "s' = s\<lparr>coord := CDone (length (completed_dishes s))\<rparr>"
proof (cases "coord s")
  case (CStart ks)
  with assms that(1,2) show ?thesis
    by (cases ks) (simp_all add: coord_step_def)
next
  case (CFeed ds)
  with assms that(3,4) show ?thesis
    by (cases ds) (simp_all add: coord_step_def put_def)
next
  case (CJoinQ k)
  with assms that(5) show ?thesis
    by (cases "unfinished_tasks s k = 0") (simp_all add: coord_step_def)
next
  case CSetStop
  with assms that(6) show ?thesis
    by (simp add: coord_step_def)
next
  case (CJoinT ks)
  with assms that(7,8) show ?thesis
    by (cases ks) (simp_all add: coord_step_def)
next
  case CLen
  with assms that(9) show ?thesis
    by (simp add: coord_step_def)
next
  case (CDone c)
  with assms show ?thesis
    by (simp add: coord_step_def)
qed

subsection \<open>The workers keep the state invariants\<close>

lemma order_worker:
  assumes "inv_order s" and "worker_step k s = Some (a, s')"
  shows "inv_order s'"
  using assms(2)
proof (cases rule: worker_step_cases)
  case (put d k')
  with assms(1) show ?thesis
    by (cases k) (simp_all add: inv_order_def pipeline_def seg_def)
next
  case (append d)
  with assms(1) show ?thesis
    by (simp add: inv_order_def pipeline_def seg_def)
qed (use assms(1) in \<open>cases k; simp add: inv_order_def pipeline_def seg_def\<close>)+

lemma count_worker:
  assumes "inv_count s" and "worker_step k s = Some (a, s')"
  shows "inv_count s'"
  using assms(2)
proof (cases rule: worker_step_cases)
  case (err d)
  with assms(1) show ?thesis
    by (auto simp: inv_count_def dest: spec [where x = k])
qed (use assms(1) in \<open>auto simp: inv_count_def\<close>)

lemma quiet_idle:
  "inv_count s \<Longrightarrow> unfinished_tasks s k = 0 \<Longrightarrow> inflight (worker s k) = [] \<and> queue s k = []"
  by (auto simp: inv_count_def simp flip: of_nat_add dest!: spec [where x = k])

lemma inflight_holding: "inflight w = [] \<Longrightarrow> holding w = []"
  by (cases w) simp_all

lemma phase_worker:
  assumes "inv_phase s" and "inv_count s" and "worker_step k s = Some (a, s')"
  shows "inv_phase s'"
  using assms(3)
proof (cases rule: worker_step_cases)
  case (put d k')
  have "\<not> (rank (coord s) = 0 \<or> 2 + idx k < rank (coord s))"
    using assms(1,2) put(1) quiet_idle [of s k] by (auto simp: inv_phase_def)
  with put assms(1) show ?thesis
    by (cases k) (auto simp: inv_phase_def)
next
  case (ack d)
  have "\<not> (rank (coord s) = 0 \<or> 2 + idx k < rank (coord s))"
    using assms(1) ack(2) by (auto simp: inv_phase_def dest: spec [where x = k])
  with ack assms(1) show ?thesis
    by (auto simp: inv_phase_def)
qed (use assms(1) in \<open>auto simp: inv_phase_def\<close>)

lemma stop_worker:
  assumes "inv_stop s" and "inv_count s" and "worker_step k s = Some (a, s')"
  shows "inv_stop s'"
  using assms(3)
proof (cases rule: worker_step_cases)
  case (err d)
  with assms(2) show ?thesis
    by (auto simp: inv_count_def dest: spec [where x = k])
qed (use assms(1) in \<open>auto simp: inv_stop_def\<close>)

lemma frame_worker:
  assumes "inv_frame n ds s" and "worker_step k s = Some (a, s')"
  shows "inv_frame n ds s'"
  using assms(2)
proof (cases rule: worker_step_cases)
  case (status d)
  have "map (\<lambda>d. d\<lparr>status := []\<rparr>) ((dishes s)[d := (dishes s ! d)\<lparr>status := target k\<rparr>])
      = map (\<lambda>d. d\<lparr>status := []\<rparr>) (dishes s)"
    by (cases "d < length (dishes s)") (simp_all add: map_update list_update_same_conv list_update_beyond)
  with status assms(1) show ?thesis
    by (simp add: inv_frame_def)
qed (use assms(1) in \<open>simp_all add: inv_frame_def\<close>)

lemma source_next: "next_stage k = Some k' \<Longrightarrow> source k' = target k"
  by (cases k) auto

lemma order_distinct:
  assumes "inv_order s"
  shows "distinct (pipeline s)" and "set (pipeline s) = {..<length (dishes s)}"
  using assms by (auto simp: inv_order_def)

lemma status_elsewhere:
  assumes "inv_order s" and "worker s k = AtStatus d"
  shows "d < length (dishes s)"
    and "d \<notin> set (feed_rest (coord s) (length (dishes s)))"
    and "d \<notin> set (queue s j)"
    and "d \<notin> set (completed_dishes s)"
    and "j \<noteq> k \<Longrightarrow> d \<notin> set (holding (worker s j))"
proof -
  have dist: "distinct (pipeline s)" and mem: "set (pipeline s) = {..<length (dishes s)}"
    using order_distinct [OF assms(1)] by simp_all
  have "d \<in> set (pipeline s)"
    using assms(2) by (cases k) (simp_all add: pipeline_def seg_def)
  with mem show "d < length (dishes s)" by simp
  show "d \<notin> set (feed_rest (coord s) (length (dishes s)))"
    using dist assms(2) by (cases k) (auto simp: pipeline_def seg_def)
  show "d \<notin> set (queue s j)"
    using dist assms(2) by (cases k; cases j) (auto simp: pipeline_def seg_def)
  show "d \<notin> set (completed_dishes s)"
    using dist assms(2) by (cases k) (auto simp: pipeline_def seg_def)
  show "d \<notin> set (holding (worker s j))" if "j \<noteq> k"
    using dist assms(2) that by (cases k; cases j) (auto simp: pipeline_def seg_def)
qed

lemma status_worker:
  assumes "inv_status s" and "inv_order s" and "worker_step k s = Some (a, s')"
  shows "inv_status s'"
  using assms(3)
proof (cases rule: worker_step_cases)
  case (status d)
  note away = status_elsewhere [OF assms(2) status(1)]
  have other: "status (dishes s' ! e) = status (dishes s ! e)" if "e \<noteq> d" for e
    using that status(3) by simp
  have self: "status (dishes s' ! d) = target k"
    using away(1) status(3) by simp
  have w: "worker s' j = (if j = k then AtPut d else worker s j)" for j
    using status(3) by simp
  have rest: "queue s' = queue s" "completed_dishes s' = completed_dishes s"
    "coord s' = coord s" "length (dishes s') = length (dishes s)"
    using status(3) by simp_all
  have hold: "e \<noteq> d" if "worker s j = AtSleep e \<or> worker s j = AtStatus e \<or> worker s j = AtPut e"
      and "j \<noteq> k" for e j
    using away(5) [of j] that by auto
  show ?thesis
    unfolding inv_status_def rest
  proof (intro conjI allI ballI impI)
    fix e assume "e \<in> set (feed_rest (coord s) (length (dishes s)))"
    with away(2) assms(1) other [of e] show "status (dishes s' ! e) = ''dirty''"
      by (auto simp: inv_status_def)
  next
    fix j e assume "e \<in> set (queue s j)"
    with away(3) [of j] assms(1) other [of e] show "status (dishes s' ! e) = source j"
      by (auto simp: inv_status_def)
  next
    fix j e assume "worker s' j = AtSleep e \<or> worker s' j = AtStatus e"
    then have "(worker s j = AtSleep e \<or> worker s j = AtStatus e) \<and> j \<noteq> k"
      by (auto simp: w split: if_splits)
    with hold [of j e] assms(1) other [of e] show "status (dishes s' ! e) = source j"
      by (auto simp: inv_status_def)
  next
    fix j e assume a: "worker s' j = AtPut e"
    show "status (dishes s' ! e) = target j"
    proof (cases "j = k")
      case True
      with a self show ?thesis by (simp add: w)
    next
      case False
      with a have "worker s j = AtPut e" by (simp add: w)
      with hold [of j e] False assms(1) other [of e] show ?thesis
        by (auto simp: inv_status_def)
    qed
  next
    fix e assume "e \<in> set (completed_dishes s)"
    with away(4) assms(1) other [of e] show "status (dishes s' ! e) = ''stored''"
      by (auto simp: inv_status_def)
  qed
next
  case (get d ds)
  with assms(1) show ?thesis
    by (auto simp: inv_status_def dest: spec [where x = k])
next
  case (put d k')
  with assms(1) source_next [OF put(2)] show ?thesis
    by (auto simp: inv_status_def)
next
  case (append d)
  with assms(1) show ?thesis
    by (auto simp: inv_status_def)
qed (use assms(1) in \<open>auto simp: inv_status_def\<close>)

subsection \<open>The coordinator keeps the state invariants\<close>

lemma idx_less [simp]: "idx k < 4" "idx k < 5" "idx k < 6" "idx k < 7"
  by (cases k; simp)+

lemma feed_rest_join [simp]:
  "feed_rest (case next_stage k of None \<Rightarrow> CSetStop | Some k' \<Rightarrow> CJoinQ k') n = []"
  by (cases k) simp_all

lemma rank_join [simp]:
  "rank (case next_stage k of None \<Rightarrow> CSetStop | Some k' \<Rightarrow> CJoinQ k') = 3 + idx k"
  by (cases k) simp_all

lemma start_quiet:
  assumes "inv_phase s" and "inv_count s" and "coord s = CStart ks"
  shows "inflight (worker s k) = []" and "queue s k = []" and "holding (worker s k) = []"
proof -
  have "unfinished_tasks s k = 0"
    using assms(1,3) by (simp add: inv_phase_def)
  from quiet_idle [OF assms(2) this]
  show "inflight (worker s k) = []" and "queue s k = []" by simp_all
  then show "holding (worker s k) = []" by (simp add: inflight_holding)
qed

lemma order_coord:
  assumes "inv_order s" and "inv_phase s" and "inv_count s" and "coord_step s = Some (a, s')"
  shows "inv_order s'"
  using assms(4)
proof (cases rule: coord_step_cases)
  case (start k ks)
  have "holding (worker s j) = []" for j
    using start_quiet(3) [OF assms(2,3) start(1)] .
  with start assms(1) show ?thesis
    by (simp add: inv_order_def pipeline_def seg_def)
qed (use assms(1) in \<open>simp_all add: inv_order_def pipeline_def seg_def\<close>)

lemma count_coord:
  assumes "inv_count s" and "inv_phase s" and "coord_step s = Some (a, s')"
  shows "inv_count s'"
  using assms(3)
proof (cases rule: coord_step_cases)
  case (start k ks)
  have "inflight (worker s j) = []" for j
    using start_quiet(1) [OF assms(2,1) start(1)] .
  with start assms(1) show ?thesis
    by (simp add: inv_count_def)
qed (use assms(1) in \<open>auto simp: inv_count_def\<close>)

lemma phase_coord:
  assumes "inv_phase s" and "coord_step s = Some (a, s')"
  shows "inv_phase s'"
  using assms(2)
proof (cases rule: coord_step_cases)
  case (joinq k)
  have "unfinished_tasks s j = 0" if "idx j \<le> idx k" for j
  proof (cases "j = k")
    case True
    with joinq(2) show ?thesis by simp
  next
    case False
    with that have "idx j < idx k" by (cases j; cases k) simp_all
    with assms(1) joinq(1) show ?thesis by (simp add: inv_phase_def)
  qed
  note quiet = this
  show ?thesis
    unfolding inv_phase_def
  proof (intro allI impI)
    fix j assume "rank (coord s') = 0 \<or> 2 + idx j < rank (coord s')"
    then have "idx j \<le> idx k"
      using joinq(4) by simp
    then show "unfinished_tasks s' j = 0"
      using quiet [of j] joinq(4) by simp
  qed
next
  case stop
  with assms(1) show ?thesis
    by (simp add: inv_phase_def)
next
  case (start k ks)
  with assms(1) show ?thesis by (simp add: inv_phase_def)
next
  case (joint k ks)
  with assms(1) show ?thesis by (simp add: inv_phase_def)
qed (use assms(1) in \<open>simp_all add: inv_phase_def\<close>)

lemma stop_coord:
  assumes "inv_stop s" and "coord_step s = Some (a, s')"
  shows "inv_stop s'"
  using assms(2)
proof (cases rule: coord_step_cases)
  case (joinq k)
  with assms(1) show ?thesis
    by (cases k) (auto simp: inv_stop_def)
next
  case (start k ks)
  with assms(1) show ?thesis by (auto simp: inv_stop_def)
qed (use assms(1) in \<open>auto simp: inv_stop_def\<close>)

lemma frame_coord:
  assumes "inv_frame n ds s" and "coord_step s = Some (a, s')"
  shows "inv_frame n ds s'"
  using assms(2)
  by (cases rule: coord_step_cases) (use assms(1) in \<open>simp_all add: inv_frame_def\<close>)

lemma status_coord:
  assumes "inv_status s" and "inv_phase s" and "inv_count s" and "coord_step s = Some (a, s')"
  shows "inv_status s'"
  using assms(4)
proof (cases rule: coord_step_cases)
  case (start k ks)
  have "inflight (worker s j) = []" for j
    using start_quiet(1) [OF assms(2,3) start(1)] .
  then have "worker s j \<noteq> AtSleep e \<and> worker s j \<noteq> AtStatus e \<and> worker s j \<noteq> AtPut e" for j e
    by (metis inflight.simps(1,2,3) list.distinct(1))
  with start assms(1) show ?thesis
    by (auto simp: inv_status_def)
next
  case (feed d ds)
  with assms(1) show ?thesis
    by (auto simp: inv_status_def)
qed (use assms(1) in \<open>auto simp: inv_status_def\<close>)

subsection \<open>Steps keep the trace in agreement with the state\<close>

lemma next_stage_inj: "next_stage j = Some k' \<Longrightarrow> next_stage k = Some k' \<Longrightarrow> j = k"
  by (cases j; cases k) auto

lemma log_snoc [simp]:
  "enq k (tr @ [a]) = enq k tr @ enq_of k a"
  "got k (tr @ [a]) = got k tr @ got_of k a"
  "acked k (tr @ [a]) = acked k tr @ acked_of k a"
  "handed k (tr @ [a]) = handed k tr @ handed_of k a"
  by (simp_all add: enq_def got_def acked_def handed_def)

lemma no_raise:
  assumes "inv_count s" and "worker s k = AtTaskDone d"
  shows "0 < unfinished_tasks s k"
  using assms by (auto simp: inv_count_def dest: spec [where x = k])

lemma log_worker:
  assumes "inv_log tr s" and "inv_count s" and "worker_step k s = Some (a, s')"
  shows "inv_log (tr @ [a]) s'"
  using assms(3)
proof (cases rule: worker_step_cases)
  case (err d)
  with no_raise [OF assms(2) err(1)] show ?thesis by simp
next
  case (put d k')
  have "next_stage j = Some k' \<longleftrightarrow> j = k" for j
    using put(2) next_stage_inj by auto
  with put assms(1) show ?thesis
    by (auto simp: inv_log_def)
next
  case (append d)
  have "next_stage j = None \<longleftrightarrow> j = k" for j
    using append(2) by (cases j) auto
  with append assms(1) show ?thesis
    by (auto simp: inv_log_def)
next
  case (get d ds)
  with assms(1) show ?thesis
    by (auto simp: inv_log_def dest: spec [where x = k])
qed (use assms(1) in \<open>auto simp: inv_log_def\<close>)

lemma log_coord:
  assumes "inv_log tr s" and "inv_phase s" and "inv_count s" and "coord_step s = Some (a, s')"
  shows "inv_log (tr @ [a]) s'"
  using assms(4)
proof (cases rule: coord_step_cases)
  case (start k ks)
  have "inflight (worker s j) = []" for j
    using start_quiet(1) [OF assms(2,3) start(1)] .
  moreover from this have "unacked (worker s j) = []" for j
    by (cases "worker s j") (use \<open>inflight (worker s j) = []\<close> in simp_all)
  ultimately show ?thesis
    using start assms(1) by (simp add: inv_log_def)
next
  case (feed d ds)
  have "next_stage j \<noteq> Some PreRinse" for j
    by (cases j) simp_all
  with feed assms(1) show ?thesis
    by (auto simp: inv_log_def)
qed (use assms(1) in \<open>auto simp: inv_log_def\<close>)

lemma cycle_worker:
  assumes "inv_cycle tr s" and "inv_count s" and "worker_step k s = Some (a, s')"
  shows "inv_cycle (tr @ [a]) s'"
  using assms(3)
proof (cases rule: worker_step_cases)
  case (err d)
  with no_raise [OF assms(2) err(1)] show ?thesis by simp
next
  case (put d k')
  have "next_stage j = Some k' \<longleftrightarrow> j = k" for j
    using put(2) next_stage_inj by auto
  moreover have "hand k d = Put k' d"
    using put(2) by (simp add: hand_def)
  ultimately show ?thesis
    using put(1,3,4) assms(1) by (auto simp: inv_cycle_def partial_def cycle_def)
next
  case (append d)
  have "next_stage j = None \<longleftrightarrow> j = k" for j
    using append(2) by (cases j) auto
  moreover have "hand k d = Append d"
    using append(2) by (simp add: hand_def)
  ultimately show ?thesis
    using append(1,3,4) assms(1) by (auto simp: inv_cycle_def partial_def cycle_def)
next
  case (ack d)
  with assms(1) show ?thesis
    by (auto simp: inv_cycle_def partial_def cycle_def)
qed (use assms(1) in \<open>auto simp: inv_cycle_def partial_def cycle_def\<close>)

lemma cycle_coord:
  assumes "inv_cycle tr s" and "inv_phase s" and "inv_count s" and "coord_step s = Some (a, s')"
  shows "inv_cycle (tr @ [a]) s'"
  using assms(4)
proof (cases rule: coord_step_cases)
  case (start k ks)
  have "inflight (worker s j) = []" for j
    using start_quiet(1) [OF assms(2,3) start(1)] .
  then have "partial j (worker s j) = []" for j
    by (simp add: partial_def)
  with start assms(1) show ?thesis
    by (auto simp: inv_cycle_def partial_def)
next
  case (feed d ds)
  have "next_stage j \<noteq> Some PreRinse" for j
    by (cases j) simp_all
  with feed assms(1) show ?thesis
    by (auto simp: inv_cycle_def)
qed (use assms(1) in \<open>auto simp: inv_cycle_def\<close>)

lemma protocol_worker:
  assumes "inv_protocol tr s" and "worker_step k s = Some (a, s')"
  shows "inv_protocol (tr @ [a]) s'"
  using assms(2)
  by (cases rule: worker_step_cases) (use assms(1) in \<open>auto simp: inv_protocol_def\<close>)

lemma protocol_coord:
  assumes "inv_protocol tr s" and "coord_step s = Some (a, s')"
  shows "inv_protocol (tr @ [a]) s'"
  using assms(2)
proof (cases rule: coord_step_cases)
  case (joinq k)
  with assms(1) show ?thesis
    by (cases k) (auto simp: inv_protocol_def protocol_order_def)
next
  case stop
  with assms(1) show ?thesis
    by (auto simp: inv_protocol_def protocol_order_def stages_def)
qed (use assms(1) in \<open>auto simp: inv_protocol_def\<close>)

lemma history_snoc [simp]: "history d (tr @ [a]) = history d tr @ assigned_of d a"
  by (simp add: history_def)

lemma history_nonempty [simp]: "history d tr \<noteq> []"
  by (simp add: history_def)

lemma forward:
  assumes "h = take (length h) status_order" and "h \<noteq> []" and "last h = source k"
  shows "h @ [target k] = take (Suc (length h)) status_order"
proof -
  have "length h \<le> length status_order"
    by (subst assms(1)) simp
  then have "length h \<le> 5"
    by (simp add: status_order_def)
  moreover have "length h \<noteq> 0"
    using assms(2) by simp
  ultimately consider "length h = 1" | "length h = 2" | "length h = 3" | "length h = 4"
    | "length h = 5"
    by linarith
  then show ?thesis
  proof cases
    case 1
    with assms(1) have "h = [''dirty'']"
      by (simp add: status_order_def)
    with assms(3) show ?thesis
      by (cases k) (simp_all add: status_order_def)
  next
    case 2
    with assms(1) have "h = [''dirty'', ''pre-rinsed'']"
      by (simp add: status_order_def)
    with assms(3) show ?thesis
      by (cases k) (simp_all add: status_order_def)
  next
    case 3
    with assms(1) have "h = [''dirty'', ''pre-rinsed'', ''washed'']"
      by (simp add: status_order_def)
    with assms(3) show ?thesis
      by (cases k) (simp_all add: status_order_def)
  next
    case 4
    with assms(1) have "h = [''dirty'', ''pre-rinsed'', ''washed'', ''dried'']"
      by (simp add: status_order_def)
    with assms(3) show ?thesis
      by (cases k) (simp_all add: status_order_def)
  next
    case 5
    with assms(1) have "h = [''dirty'', ''pre-rinsed'', ''washed'', ''dried'', ''stored'']"
      by (simp add: status_order_def)
    with assms(3) show ?thesis
      by (cases k) (simp_all add: status_order_def)
  qed
qed

lemma history_worker:
  assumes "inv_history tr s" and "inv_status s" and "worker_step k s = Some (a, s')"
  shows "inv_history (tr @ [a]) s'"
  using assms(3)
proof (cases rule: worker_step_cases)
  case (status d)
  have src: "status (dishes s ! d) = source k"
    using assms(2) status(1) by (auto simp: inv_status_def)
  show ?thesis
    unfolding inv_history_def
  proof (intro allI impI)
    fix e assume "e < length (dishes s')"
    then have e: "e < length (dishes s)"
      using status(3) by simp
    with assms(1) have old: "history e tr = take (length (history e tr)) status_order"
      "status (dishes s ! e) = last (history e tr)"
      by (simp_all add: inv_history_def)
    show "history e (tr @ [a]) = take (length (history e (tr @ [a]))) status_order \<and>
          status (dishes s' ! e) = last (history e (tr @ [a]))"
    proof (cases "e = d")
      case True
      with old src have new: "history d tr @ [target k]
          = take (Suc (length (history d tr))) status_order"
        by (intro forward) simp_all
      have snoc: "history e (tr @ [a]) = history d tr @ [target k]"
        using True status(2) by simp
      have "history e (tr @ [a]) = take (length (history e (tr @ [a]))) status_order"
        unfolding snoc by (simp add: new [symmetric])
      moreover have "status (dishes s' ! e) = last (history e (tr @ [a]))"
        unfolding snoc using True e status(3) by simp
      ultimately show ?thesis ..
    next
      case False
      with old status(2,3) show ?thesis
        by simp
    qed
  qed
qed (use assms(1) in \<open>simp_all add: inv_history_def\<close>)

lemma history_coord:
  assumes "inv_history tr s" and "coord_step s = Some (a, s')"
  shows "inv_history (tr @ [a]) s'"
  using assms(2)
  by (cases rule: coord_step_cases) (use assms(1) in \<open>simp_all add: inv_history_def\<close>)

lemma feed_worker:
  assumes "inv_feed tr s" and "worker_step k s = Some (a, s')"
  shows "inv_feed (tr @ [a]) s'"
  using assms(2)
proof (cases rule: worker_step_cases)
  case (put d k')
  then have "k' \<noteq> PreRinse" by (cases k) auto
  with put assms(1) show ?thesis
    by (simp add: inv_feed_def)
qed (use assms(1) in \<open>simp_all add: inv_feed_def\<close>)

lemma feed_coord:
  assumes "inv_feed tr s" and "coord_step s = Some (a, s')"
  shows "inv_feed (tr @ [a]) s'"
  using assms(2)
  by (cases rule: coord_step_cases) (use assms(1) in \<open>simp_all add: inv_feed_def\<close>)

lemma len_worker:
  assumes "inv_len s" and "inv_phase s" and "inv_count s" and "worker_step k s = Some (a, s')"
  shows "inv_len s'"
  using assms(4)
proof (cases rule: worker_step_cases)
  case (append d)
  have "coord s \<noteq> CDone c" for c
  proof
    assume "coord s = CDone c"
    with assms(2) have "unfinished_tasks s k = 0"
      by (simp add: inv_phase_def)
    from quiet_idle [OF assms(3) this] append(1) show False
      by simp
  qed
  with append show ?thesis
    by (simp add: inv_len_def)
qed (use assms(1) in \<open>simp_all add: inv_len_def\<close>)

lemma len_coord:
  assumes "inv_len s" and "coord_step s = Some (a, s')"
  shows "inv_len s'"
  using assms(2)
proof (cases rule: coord_step_cases)
  case (joinq k)
  then show ?thesis
    by (cases k) (simp_all add: inv_len_def)
qed (use assms(1) in \<open>simp_all add: inv_len_def\<close>)

subsection \<open>Every run keeps the invariants\<close>

lemma invariant_step:
  assumes "invariant n ds (tr, s)" and "step t s = Some (a, s')"
  shows "invariant n ds (tr @ [a], s')"
proof (cases t)
  case Main
  with assms(2) have st: "coord_step s = Some (a, s')"
    by (simp add: step_def)
  from assms(1) show ?thesis
    unfolding invariant_def prod.case
    by (intro conjI order_coord [OF _ _ _ st] count_coord [OF _ _ st] phase_coord [OF _ st]
        stop_coord [OF _ st] status_coord [OF _ _ _ st] frame_coord [OF _ st]
        log_coord [OF _ _ _ st] cycle_coord [OF _ _ _ st] protocol_coord [OF _ st]
        history_coord [OF _ st] feed_coord [OF _ st] len_coord [OF _ st]) simp_all
next
  case (Worker k)
  with assms(2) have st: "worker_step k s = Some (a, s')"
    by (simp add: step_def)
  from assms(1) show ?thesis
    unfolding invariant_def prod.case
    by (intro conjI order_worker [OF _ st] count_worker [OF _ st] phase_worker [OF _ _ st]
        stop_worker [OF _ _ st] status_worker [OF _ _ st] frame_worker [OF _ st]
        log_worker [OF _ _ st] cycle_worker [OF _ _ st] protocol_worker [OF _ st]
        history_worker [OF _ _ st] feed_worker [OF _ st] len_worker [OF _ _ _ st]) simp_all
qed

lemma invariant_exec:
  assumes "exec ts c = Some c'" and "invariant n ds c"
  shows "invariant n ds c'"
  using assms
proof (induction ts arbitrary: c)
  case Nil
  then show ?case by simp
next
  case (Cons t ts)
  obtain tr s where c: "c = (tr, s)" by (cases c)
  with Cons.prems(1) obtain a s' where st: "step t s = Some (a, s')"
    and rest: "exec ts (tr @ [a], s') = Some c'"
    by (auto split: option.splits)
  from Cons.prems(2) c st have "invariant n ds (tr @ [a], s')"
    by (auto intro: invariant_step)
  with rest show ?case
    by (rule Cons.IH)
qed

lemma invariant_init:
  assumes "\<forall>d \<in> set ds. status d = ''dirty''"
  shows "invariant n ds ([], init n ds)"
  using assms
  by (simp add: invariant_def init_def inv_order_def pipeline_def seg_def inv_count_def
      inv_phase_def inv_stop_def inv_status_def inv_frame_def inv_log_def inv_cycle_def
      inv_protocol_def inv_history_def inv_feed_def inv_len_def stages_def enq_def got_def acked_def handed_def
      partial_def history_def status_order_def protocol_order_def)

lemma generate_loop_props:
  assumes "generate_loop choice is r acc = (ds, r')"
  shows "length ds = length acc + length is"
    and "(\<forall>d \<in> set acc. status d = ''dirty'') \<longrightarrow> (\<forall>d \<in> set ds. status d = ''dirty'')"
    and "map dish_id ds = map dish_id acc @ map (\<lambda>i. i + 1) is"
  using assms
  by (induction choice "is" r acc rule: generate_loop.induct)
     (auto simp: Dish_def split: prod.splits)

lemma par_generate_props:
  "length (fst (par_generate_dishes choice r n)) = nat n"
  "\<forall>d \<in> set (fst (par_generate_dishes choice r n)). status d = ''dirty''"
  "map dish_id (fst (par_generate_dishes choice r n)) = map (\<lambda>i. i + 1) (range_py n)"
  using generate_loop_props [of choice "range_py n" r "[]"
      "fst (par_generate_dishes choice r n)" "snd (par_generate_dishes choice r n)"]
  by (simp_all add: par_generate_dishes_def range_py_def)

lemma reachable_invariant:
  assumes "exec sched ([], ParallelDishwasher choice r n) = Some (tr, s)"
  shows "invariant n (fst (par_generate_dishes choice r n)) (tr, s)"
  using assms unfolding ParallelDishwasher_def
  by (rule invariant_exec) (rule invariant_init, rule par_generate_props)

section \<open>Consequences for every run\<close>

lemma frame_length: "inv_frame n ds s \<Longrightarrow> length (dishes s) = length ds"
  by (auto simp: inv_frame_def dest: arg_cong [where f = length])

lemma reach:
  assumes "exec sched ([], ParallelDishwasher choice r n) = Some (tr, s)"
  shows "inv_order s" and "inv_count s" and "inv_phase s" and "inv_stop s" and "inv_status s"
    and "inv_frame n (fst (par_generate_dishes choice r n)) s" and "inv_log tr s"
    and "inv_cycle tr s" and "inv_protocol tr s" and "inv_history tr s" and "inv_feed tr s"
    and "inv_len s" and "length (dishes s) = nat n"
proof -
  note inv = reachable_invariant [OF assms(1), unfolded invariant_def prod.case]
  from inv show "inv_order s" and "inv_count s" and "inv_phase s" and "inv_stop s"
    and "inv_status s" and fr: "inv_frame n (fst (par_generate_dishes choice r n)) s"
    and "inv_log tr s" and "inv_cycle tr s" and "inv_protocol tr s" and "inv_history tr s"
    and "inv_feed tr s" and "inv_len s"
    by simp_all
  from frame_length [OF fr] show "length (dishes s) = nat n"
    by (simp add: par_generate_props(1))
qed

text \<open>Once the coordinator has waited for all four queues, nothing is in flight.\<close>

lemma drained_state:
  assumes "inv_order s" and "inv_count s" and "inv_phase s" and "6 \<le> rank (coord s)"
  shows "unfinished_tasks s k = 0" and "queue s k = []" and "inflight (worker s k) = []"
    and "completed_dishes s = [0..<length (dishes s)]"
proof -
  have u: "unfinished_tasks s j = 0" for j
    using assms(3,4) idx_less(1) [of j] by (auto simp del: idx_less simp: inv_phase_def)
  then show "unfinished_tasks s k = 0" .
  have q: "queue s j = []" and i: "inflight (worker s j) = []" for j
    using quiet_idle [OF assms(2) u [of j]] by simp_all
  then show "queue s k = []" and "inflight (worker s k) = []" .
  have h: "holding (worker s j) = []" for j
    using i [of j] by (rule inflight_holding)
  have "feed_rest (coord s) (length (dishes s)) = []"
    using assms(4) by (cases "coord s") simp_all
  with assms(1) q h show "completed_dishes s = [0..<length (dishes s)]"
    by (simp add: inv_order_def pipeline_def seg_def)
qed

lemma all_stored:
  assumes "exec sched ([], ParallelDishwasher choice r n) = Some (tr, s)"
    and "6 \<le> rank (coord s)"
  shows "completed_dishes s = [0..<nat n]"
    and "\<forall>i < nat n. status (dishes s ! i) = ''stored''"
proof -
  note inv = reach [OF assms(1)]
  show sink: "completed_dishes s = [0..<nat n]"
    using drained_state(4) [OF inv(1,2,3) assms(2)] inv(13) by simp
  show "\<forall>i < nat n. status (dishes s ! i) = ''stored''"
    using inv(5) sink by (simp add: inv_status_def)
qed


lemma join_store_rank:
  assumes "inv_protocol tr s" and "QueueJoin Store \<in> set tr"
  shows "6 \<le> rank (coord s)"
proof (rule ccontr)
  assume "\<not> 6 \<le> rank (coord s)"
  then have "QueueJoin Store \<in> set (todo (coord s))"
  proof (cases "coord s")
    case (CJoinQ k)
    then show ?thesis by (cases k) (simp_all add: protocol_order_def)
  qed (simp_all add: protocol_order_def)
  moreover have "QueueJoin Store \<in> set (filter protocol tr)"
    using assms(2) by simp
  moreover have "distinct (filter protocol tr @ todo (coord s))"
    using assms(1) by (simp add: inv_protocol_def protocol_order_def)
  ultimately show False
    by auto
qed

lemma complete_history:
  assumes "h = take (length h) status_order" and "h \<noteq> []" and "last h = ''stored''"
  shows "h = status_order"
proof -
  have "length h \<le> length status_order"
    by (subst assms(1)) simp
  then have "length h \<le> 5"
    by (simp add: status_order_def)
  moreover have "length h \<noteq> 0"
    using assms(2) by simp
  ultimately consider "length h = 1" | "length h = 2" | "length h = 3" | "length h = 4"
    | "length h = 5"
    by linarith
  then show ?thesis
  proof cases
    case 1
    with assms(1) have "h = [''dirty'']" by (simp add: status_order_def)
    with assms(3) show ?thesis by simp
  next
    case 2
    with assms(1) have "h = [''dirty'', ''pre-rinsed'']" by (simp add: status_order_def)
    with assms(3) show ?thesis by simp
  next
    case 3
    with assms(1) have "h = [''dirty'', ''pre-rinsed'', ''washed'']"
      by (simp add: status_order_def)
    with assms(3) show ?thesis by simp
  next
    case 4
    with assms(1) have "h = [''dirty'', ''pre-rinsed'', ''washed'', ''dried'']"
      by (simp add: status_order_def)
    with assms(3) show ?thesis by simp
  next
    case 5
    with assms(1) show ?thesis by (simp add: status_order_def)
  qed
qed

lemma partial_take: "\<exists>m d. m < 4 \<and> partial k w = take m (cycle k d)"
proof (cases w)
  case (AtSleep d)
  then have "partial k w = take 1 (cycle k d)" by (simp add: partial_def)
  then show ?thesis by (intro exI [of _ 1] exI [of _ d]) simp
next
  case (AtStatus d)
  then have "partial k w = take 1 (cycle k d)" by (simp add: partial_def)
  then show ?thesis by (intro exI [of _ 1] exI [of _ d]) simp
next
  case (AtPut d)
  then have "partial k w = take 2 (cycle k d)" by (simp add: partial_def)
  then show ?thesis by (intro exI [of _ 2] exI [of _ d]) simp
next
  case (AtTaskDone d)
  then have "partial k w = take 3 (cycle k d)" by (simp add: partial_def)
  then show ?thesis by (intro exI [of _ 3] exI [of _ d]) simp
qed (auto simp: partial_def intro: exI [of _ 0])

lemma map_deref: "map (\<lambda>i. f (xs ! i)) [0..<length xs] = map f xs"
  by (rule nth_equalityI) simp_all

subsection \<open>What has been handed over lies downstream\<close>

lemma peel:
  assumes "a @ inflight w @ q = b @ holding w @ q"
  shows "a @ unacked w = b"
proof (cases w)
  case (AtTaskDone d)
  with assms have "(a @ [d]) @ q = b @ q"
    by simp
  then have "a @ [d] = b"
    by (simp only: append_same_eq)
  with AtTaskDone show ?thesis
    by simp
qed (use assms in simp_all)

lemma handed_enq: "next_stage k = Some k' \<Longrightarrow> handed k tr = enq k' tr"
proof -
  assume n: "next_stage k = Some k'"
  have "handed_of k a = enq_of k' a" for a
    using n by (cases a) auto
  then have "handed_of k = enq_of k'"
    by (rule ext)
  then show ?thesis
    by (simp add: handed_def enq_def)
qed

lemma handed_is_beyond:
  assumes "inv_order s" and "inv_feed tr s" and "inv_log tr s"
  shows "handed k tr = beyond s k"
proof -
  have e: "enq j tr = acked j tr @ inflight (worker s j) @ queue s j"
    and h: "handed j tr = acked j tr @ unacked (worker s j)" for j
    using assms(3) by (simp_all add: inv_log_def)
  have step: "handed j tr = beyond s j" if "enq j tr = beyond s j @ seg s j" for j
    using that peel [of "acked j tr" "worker s j" "queue s j" "beyond s j"]
    by (simp add: e h seg_def)
  have "completed_dishes s @ (seg s Store @ seg s Dry @ seg s Wash @ seg s PreRinse)
      @ feed_rest (coord s) (length (dishes s)) = [0..<length (dishes s)]"
    using assms(1) by (simp add: inv_order_def pipeline_def)
  moreover have "enq PreRinse tr @ feed_rest (coord s) (length (dishes s))
      = [0..<length (dishes s)]"
    using assms(2) by (simp add: inv_feed_def)
  ultimately have "enq PreRinse tr @ feed_rest (coord s) (length (dishes s))
      = (completed_dishes s @ (seg s Store @ seg s Dry @ seg s Wash @ seg s PreRinse))
        @ feed_rest (coord s) (length (dishes s))"
    by simp
  then have "enq PreRinse tr
      = completed_dishes s @ (seg s Store @ seg s Dry @ seg s Wash @ seg s PreRinse)"
    by (simp only: append_same_eq)
  then have "enq PreRinse tr = beyond s PreRinse @ seg s PreRinse"
    by (simp add: beyond_def)
  then have h1: "handed PreRinse tr = beyond s PreRinse"
    by (rule step)
  then have "enq Wash tr = beyond s Wash @ seg s Wash"
    by (simp add: handed_enq [of PreRinse Wash, symmetric] beyond_def)
  then have h2: "handed Wash tr = beyond s Wash"
    by (rule step)
  then have "enq Dry tr = beyond s Dry @ seg s Dry"
    by (simp add: handed_enq [of Wash Dry, symmetric] beyond_def)
  then have h3: "handed Dry tr = beyond s Dry"
    by (rule step)
  then have "enq Store tr = beyond s Store @ seg s Store"
    by (simp add: handed_enq [of Dry Store, symmetric] beyond_def)
  then have h4: "handed Store tr = beyond s Store"
    by (rule step)
  from h1 h2 h3 h4 show ?thesis
    by (cases k) simp_all
qed

lemma seg_status:
  assumes "inv_status s" and "d \<in> set (seg s j)"
  shows "status (dishes s ! d) = source j \<or> status (dishes s ! d) = target j"
proof (cases "d \<in> set (queue s j)")
  case True
  with assms(1) show ?thesis
    by (simp add: inv_status_def)
next
  case False
  with assms(2) have "d \<in> set (holding (worker s j))"
    by (simp add: seg_def)
  with assms(1) show ?thesis
    by (cases "worker s j") (auto simp: inv_status_def)
qed

lemma beyond_status:
  assumes "inv_status s" and "d \<in> set (beyond s k)"
  shows "status (dishes s ! d) \<in> set (drop (Suc (idx k)) status_order)"
proof (cases "d \<in> set (completed_dishes s)")
  case True
  with assms(1) have "status (dishes s ! d) = ''stored''"
    by (simp add: inv_status_def)
  then show ?thesis
    by (cases k) (simp_all add: status_order_def)
next
  case False
  with assms(2) obtain j where j: "j \<in> set (later k)" and d: "d \<in> set (seg s j)"
    by (auto simp: beyond_def)
  from seg_status [OF assms(1) d] j show ?thesis
    by (cases k; cases j) (auto simp: status_order_def)
qed

lemma put_not_beyond:
  assumes "inv_order s" and "worker s k = AtPut d"
  shows "d \<notin> set (beyond s k)"
proof -
  have "distinct (pipeline s)"
    using order_distinct(1) [OF assms(1)] .
  with assms(2) show ?thesis
    by (cases k) (auto simp: pipeline_def beyond_def seg_def)
qed

subsection \<open>The metrics\<close>

lemma double_limit_large: "1 < double_limit"
  by (simp add: double_limit_def)

lemma small_not_too_large [simp]: "\<not> too_large 0"
  using double_limit_large by (simp add: too_large_def)


lemma zero_quotient: "\<not> quotient_too_large 0 n \<longleftrightarrow> n \<noteq> 0"
  using double_limit_large by (auto simp: quotient_too_large_def mult_le_0_iff)





lemma par_metrics_zero: "par_metrics ops e 0 0 = Inl ZeroDivisionError"
  by (simp add: par_metrics_def int_by_float_def int_by_int_def)

lemma seq_metrics_zero: "seq_metrics ops e 0 = Inl ZeroDivisionError"
  by (simp add: seq_metrics_def int_by_float_def float_by_int_def)

subsection \<open>The two strategies on one or more dishes\<close>



subsection \<open>Three runs\<close>

lemma zero_run:
  "\<exists>tr s. exec main17 ([], ParallelDishwasher choice r 0) = Some (tr, s) \<and> coord s = CDone 0"
  by (simp add: main17_def ParallelDishwasher_def par_generate_dishes_def range_py_def init_def
      step_def coord_step_def stages_def)


lemma sched2_run:
  "case exec sched2 ([], ParallelDishwasher pick 42 2) of
     None \<Rightarrow> False
   | Some (tr, s) \<Rightarrow> coord s = CDone 2 \<and> QueueJoin Store \<in> set tr \<and> num_dishes s = 2"
  by code_simp

lemma drain2_run:
  "case exec drain2 ([], ParallelDishwasher pick 42 2) of
     None \<Rightarrow> False
   | Some (tr, s) \<Rightarrow>
       coord s = CJoinT [PreRinse, Wash, Dry, Store] \<and>
       map_option fst (step (Worker PreRinse) s) = Some (Exit PreRinse)"
  by code_simp

lemma mid2_run:
  "case exec mid2 ([], ParallelDishwasher pick 42 2) of
     None \<Rightarrow> False
   | Some (tr, s) \<Rightarrow> worker s PreRinse = AtPut 0"
  by code_simp

lemma mid2_final:
  obtains tr s where "exec mid2 ([], ParallelDishwasher pick 42 2) = Some (tr, s)"
    and "worker s PreRinse = AtPut 0"
  using mid2_run by (auto split: option.splits)

lemma sched2_final:
  obtains tr s where "exec sched2 ([], ParallelDishwasher pick 42 2) = Some (tr, s)"
    and "coord s = CDone 2" and "QueueJoin Store \<in> set tr" and "num_dishes s = 2"
  using sched2_run by (auto split: option.splits)

lemma drain2_final:
  obtains tr s s' where "exec drain2 ([], ParallelDishwasher pick 42 2) = Some (tr, s)"
    and "coord s = CJoinT [PreRinse, Wash, Dry, Store]"
    and "step (Worker PreRinse) s = Some (Exit PreRinse, s')"
  using drain2_run by (fastforce split: option.splits)

subsection \<open>For every number of dishes some run finishes\<close>

lemma all_stages: "(\<forall>k. P k) \<longleftrightarrow> P PreRinse \<and> P Wash \<and> P Dry \<and> P Store"
  by (metis stage.exhaust)

lemma exec_append:
  "exec (a @ b) c = (case exec a c of None \<Rightarrow> None | Some c' \<Rightarrow> exec b c')"
proof (induction a arbitrary: c)
  case Nil
  show ?case by simp
next
  case (Cons t a)
  show ?case
    by (cases c) (simp add: Cons.IH split: option.splits)
qed

lemma exec_then:
  assumes "exec a c = Some c'" and "exec b c' = Some c''"
  shows "exec (a @ b) c = Some c''"
  using assms by (simp add: exec_append)

lemma one_cycle:
  assumes "waiting C s" and "queue s k = d # ds"
  shows "\<exists>tr' s'. exec (replicate 6 (Worker k)) (tr, s) = Some (tr', s') \<and> waiting C s' \<and>
    queue s' k = ds \<and>
    (\<forall>j. j \<noteq> k \<longrightarrow>
       length (queue s' j) = length (queue s j) + (if next_stage k = Some j then 1 else 0))"
  using assms
  by (cases k)
     (simp_all add: eval_nat_numeral waiting_def step_def worker_step_def hand_over_def put_def)

lemma all_cycles:
  assumes "waiting C s" and "length (queue s k) = m"
  shows "\<exists>tr' s'. exec (work k m) (tr, s) = Some (tr', s') \<and> waiting C s' \<and>
    queue s' k = [] \<and>
    (\<forall>j. j \<noteq> k \<longrightarrow>
       length (queue s' j) = length (queue s j) + (if next_stage k = Some j then m else 0))"
  using assms
proof (induction m arbitrary: tr s)
  case 0
  then show ?case
    by (simp add: work_def)
next
  case (Suc m)
  from Suc.prems(2) obtain d ds where q: "queue s k = d # ds" and ds: "length ds = m"
    by (cases "queue s k") simp_all
  from one_cycle [OF Suc.prems(1) q, of tr] obtain tr1 s1
    where run1: "exec (replicate 6 (Worker k)) (tr, s) = Some (tr1, s1)"
      and w1: "waiting C s1" and q1: "queue s1 k = ds"
      and o1: "\<forall>j. j \<noteq> k \<longrightarrow>
        length (queue s1 j) = length (queue s j) + (if next_stage k = Some j then 1 else 0)"
    by blast
  from Suc.IH [OF w1, of tr1] q1 ds obtain tr2 s2
    where run2: "exec (work k m) (tr1, s1) = Some (tr2, s2)"
      and w2: "waiting C s2" and q2: "queue s2 k = []"
      and o2: "\<forall>j. j \<noteq> k \<longrightarrow>
        length (queue s2 j) = length (queue s1 j) + (if next_stage k = Some j then m else 0)"
    by blast
  have "work k (Suc m) = replicate 6 (Worker k) @ work k m"
    by (simp add: work_def)
  with exec_then [OF run1 run2] have "exec (work k (Suc m)) (tr, s) = Some (tr2, s2)"
    by simp
  moreover from o1 o2 have "\<forall>j. j \<noteq> k \<longrightarrow>
      length (queue s2 j) = length (queue s j) + (if next_stage k = Some j then Suc m else 0)"
    by simp
  ultimately show ?case
    using w2 q2 by blast
qed

lemma feeding:
  assumes "coord s = CFeed ds" and "waiting (CFeed ds) s"
  shows "\<exists>tr' s'. exec (replicate (Suc (length ds)) Main) (tr, s) = Some (tr', s') \<and>
    waiting (CJoinQ PreRinse) s' \<and>
    length (queue s' PreRinse) = length (queue s PreRinse) + length ds \<and>
    (\<forall>j. j \<noteq> PreRinse \<longrightarrow> queue s' j = queue s j)"
  using assms
proof (induction ds arbitrary: tr s)
  case Nil
  then show ?case
    by (simp add: waiting_def step_def coord_step_def)
next
  case (Cons d ds)
  let ?s1 = "(put PreRinse d s)\<lparr>coord := CFeed ds\<rparr>"
  have st: "step Main s = Some (Put PreRinse d, ?s1)"
    using Cons.prems(1) by (simp add: step_def coord_step_def)
  have w1: "waiting (CFeed ds) ?s1"
    using Cons.prems(2) by (simp add: waiting_def put_def)
  from Cons.IH [OF _ w1, of "tr @ [Put PreRinse d]"] obtain tr' s'
    where run: "exec (replicate (Suc (length ds)) Main) (tr @ [Put PreRinse d], ?s1) = Some (tr', s')"
      and w: "waiting (CJoinQ PreRinse) s'"
      and l: "length (queue s' PreRinse) = length (queue ?s1 PreRinse) + length ds"
      and o: "\<forall>j. j \<noteq> PreRinse \<longrightarrow> queue s' j = queue ?s1 j"
    by auto
  have "exec (replicate (Suc (length (d # ds))) Main) (tr, s) = Some (tr', s')"
    using st run by simp
  moreover have "length (queue s' PreRinse) = length (queue s PreRinse) + length (d # ds)"
    using l by (simp add: put_def)
  moreover have "\<forall>j. j \<noteq> PreRinse \<longrightarrow> queue s' j = queue s j"
    using o by (simp add: put_def)
  ultimately show ?case
    using w by blast
qed

lemma starting:
  "\<exists>tr' s'. exec (replicate 5 Main) ([], init n ds) = Some (tr', s') \<and>
     waiting (CFeed [0..<length ds]) s' \<and> (\<forall>k. queue s' k = [])"
  by (simp add: eval_nat_numeral init_def stages_def step_def coord_step_def waiting_def
      all_stages)

lemma finishing:
  assumes "waiting (CJoinQ PreRinse) s" and "\<forall>k. queue s k = []"
  shows "\<exists>tr' s' c. exec (replicate 11 Main) (tr, s) = Some (tr', s') \<and> coord s' = CDone c"
  using assms
  by (simp add: eval_nat_numeral waiting_def stages_def step_def coord_step_def all_stages)

lemma some_run_finishes:
  "\<exists>tr s c. exec (plain_schedule (nat n)) ([], ParallelDishwasher choice r n) = Some (tr, s) \<and>
     coord s = CDone c"
proof -
  define ds where "ds = fst (par_generate_dishes choice r n)"
  have len: "length ds = nat n"
    by (simp add: ds_def par_generate_props(1))
  obtain tr0 s0 where r0: "exec (replicate 5 Main) ([], init n ds) = Some (tr0, s0)"
    and w0: "waiting (CFeed [0..<length ds]) s0" and q0: "\<forall>k. queue s0 k = []"
    using starting [of n ds] by blast
  from w0 have c0: "coord s0 = CFeed [0..<length ds]"
    by (simp add: waiting_def)
  from feeding [OF c0 w0, of tr0] len q0 obtain tr1 s1
    where r1: "exec (replicate (Suc (nat n)) Main) (tr0, s0) = Some (tr1, s1)"
      and w1: "waiting (CJoinQ PreRinse) s1"
      and p1: "length (queue s1 PreRinse) = nat n"
      and o1: "\<forall>j. j \<noteq> PreRinse \<longrightarrow> queue s1 j = []"
    by auto
  from all_cycles [OF w1 p1, of tr1] o1 obtain tr2 s2
    where r2: "exec (work PreRinse (nat n)) (tr1, s1) = Some (tr2, s2)"
      and w2: "waiting (CJoinQ PreRinse) s2"
      and q2: "queue s2 PreRinse = []" "length (queue s2 Wash) = nat n"
        "queue s2 Dry = []" "queue s2 Store = []"
    by fastforce
  from all_cycles [OF w2 q2(2), of tr2] q2 obtain tr3 s3
    where r3: "exec (work Wash (nat n)) (tr2, s2) = Some (tr3, s3)"
      and w3: "waiting (CJoinQ PreRinse) s3"
      and q3: "queue s3 PreRinse = []" "queue s3 Wash = []"
        "length (queue s3 Dry) = nat n" "queue s3 Store = []"
    by fastforce
  from all_cycles [OF w3 q3(3), of tr3] q3 obtain tr4 s4
    where r4: "exec (work Dry (nat n)) (tr3, s3) = Some (tr4, s4)"
      and w4: "waiting (CJoinQ PreRinse) s4"
      and q4: "queue s4 PreRinse = []" "queue s4 Wash = []"
        "queue s4 Dry = []" "length (queue s4 Store) = nat n"
    by fastforce
  from all_cycles [OF w4 q4(4), of tr4] q4 obtain tr5 s5
    where r5: "exec (work Store (nat n)) (tr4, s4) = Some (tr5, s5)"
      and w5: "waiting (CJoinQ PreRinse) s5"
      and q5: "queue s5 PreRinse = []" "queue s5 Wash = []"
        "queue s5 Dry = []" "queue s5 Store = []"
    by fastforce
  have "\<forall>k. queue s5 k = []"
    using q5 by (simp add: all_stages)
  from finishing [OF w5 this, of tr5] obtain tr6 s6 c
    where r6: "exec (replicate 11 Main) (tr5, s5) = Some (tr6, s6)" and c: "coord s6 = CDone c"
    by blast
  have "exec (plain_schedule (nat n)) ([], init n ds) = Some (tr6, s6)"
    unfolding plain_schedule_def
    by (intro exec_then [OF r0] exec_then [OF r1] exec_then [OF r2] exec_then [OF r3]
        exec_then [OF r4] exec_then [OF r5] r6)
  with c show ?thesis
    by (auto simp: ParallelDishwasher_def ds_def)
qed

section \<open>The claims\<close>

text \<open>
  Claim C1.  In every run of the pipeline on the dishes of
  \<^verbatim>\<open>ParallelDishwasher(n)\<close>, under every schedule, once \<^verbatim>\<open>process_parallel\<close> has
  read the length of \<^verbatim>\<open>completed_dishes\<close>, every dish has the status
  \<^verbatim>\<open>"stored"\<close>, and the sink holds every dish exactly once: its size, and the
  length read, is the number of dishes.  Runs that get there exist for every number of
  dishes, by \<open>some_run_finishes\<close>.
\<close>

theorem pipeline_stores_every_dish:
  assumes "exec sched ([], ParallelDishwasher choice r n) = Some (tr, s)"
    and "coord s = CDone c"
  shows "length (dishes s) = nat n \<and> (\<forall>i < nat n. status (dishes s ! i) = ''stored'') \<and>
    length (completed_dishes s) = nat n \<and> distinct (completed_dishes s) \<and>
    set (completed_dishes s) = {..<nat n} \<and> c = nat n"
proof -
  note inv = reach [OF assms(1)]
  have rk: "6 \<le> rank (coord s)"
    using assms(2) by simp
  note fin = all_stored [OF assms(1) rk]
  have "c = length (completed_dishes s)"
    using inv(12) assms(2) by (simp add: inv_len_def)
  with fin inv(13) show ?thesis
    by auto
qed

theorem pipeline_stores_every_dish_witness:
  "\<exists>tr s. exec sched2 ([], ParallelDishwasher pick 42 2) = Some (tr, s) \<and>
     coord s = CDone 2 \<and> length (completed_dishes s) = 2 \<and> length (dishes s) = 2 \<and>
     status (dishes s ! 0) = ''stored'' \<and> status (dishes s ! 1) = ''stored''"
proof -
  obtain tr s where run: "exec sched2 ([], ParallelDishwasher pick 42 2) = Some (tr, s)"
    and c: "coord s = CDone 2"
    by (rule sched2_final)
  from pipeline_stores_every_dish [OF run c] have
    "length (dishes s) = 2" "length (completed_dishes s) = 2"
    "\<forall>i < 2. status (dishes s ! i) = ''stored''"
    by simp_all
  with run c show ?thesis
    by (intro exI [of _ tr] exI [of _ s]) simp
qed

text \<open>
  Claim C2.  A dish is created with the status \<^verbatim>\<open>"dirty"\<close>.  Along every run the
  values its status has had, in the order they were assigned, are an initial part of
  dirty, pre-rinsed, washed, dried, stored, so no assignment skips or repeats a stage;
  the status in the state is the last of them; and when the run has finished they are
  all five.
\<close>

theorem status_moves_forward:
  assumes "exec sched ([], ParallelDishwasher choice r n) = Some (tr, s)"
    and "d < nat n"
  shows "status (dishes (ParallelDishwasher choice r n) ! d) = ''dirty'' \<and>
    history d tr = take (length (history d tr)) status_order \<and>
    status (dishes s ! d) = last (history d tr) \<and>
    (\<forall>c. coord s = CDone c \<longrightarrow> history d tr = status_order)"
proof -
  note inv = reach [OF assms(1)]
  have "status (dishes (ParallelDishwasher choice r n) ! d) = ''dirty''"
    using par_generate_props(1,2) [of choice r n] assms(2)
    by (simp add: ParallelDishwasher_def init_def)
  moreover have h: "history d tr = take (length (history d tr)) status_order"
    and l: "status (dishes s ! d) = last (history d tr)"
    using inv(10,13) assms(2) by (simp_all add: inv_history_def)
  moreover have "history d tr = status_order" if "coord s = CDone c" for c
  proof -
    have "6 \<le> rank (coord s)"
      using that by simp
    from all_stored(2) [OF assms(1) this] assms(2)
    have "status (dishes s ! d) = ''stored''"
      by simp
    with h l show ?thesis
      by (intro complete_history) simp_all
  qed
  ultimately show ?thesis
    by blast
qed

theorem status_moves_forward_witness:
  "\<exists>tr s. exec sched2 ([], ParallelDishwasher pick 42 2) = Some (tr, s) \<and>
     (1 :: nat) < nat 2 \<and> coord s = CDone 2 \<and>
     status (dishes (ParallelDishwasher pick 42 2) ! 1) = ''dirty'' \<and>
     history 1 tr = [''dirty'', ''pre-rinsed'', ''washed'', ''dried'', ''stored''] \<and>
     status (dishes s ! 1) = ''stored''"
proof -
  obtain tr s where run: "exec sched2 ([], ParallelDishwasher pick 42 2) = Some (tr, s)"
    and c: "coord s = CDone 2"
    by (rule sched2_final)
  have d: "(1 :: nat) < nat 2"
    by simp
  from status_moves_forward [OF run d] c have
    "status (dishes (ParallelDishwasher pick 42 2) ! 1) = ''dirty''"
    "history 1 tr = status_order" "status (dishes s ! 1) = last (history 1 tr)"
    by simp_all
  with run c d show ?thesis
    by (intro exI [of _ tr] exI [of _ s]) (simp add: status_order_def)
qed



text \<open>
  Claim C4.  In every run, the steps of the worker of a stage that touch a dish are a
  sequence of whole cycles, one per acknowledged dish and each in the order take, set
  the status to the target of the stage, hand over to the output, \<^verbatim>\<open>task_done()\<close>,
  followed by an initial part of one more cycle.  The state agrees: a dish about to be
  handed over has the target status in \<open>dishes\<close> and is not yet downstream; the
  dishes handed over are, in order, exactly the dishes that lie downstream in the
  queues, the hands of the later workers and \<open>completed_dishes\<close>; the acknowledged
  dishes are those but the one just handed over; and every dish downstream has the
  target status of the stage or a later one.  Hence whenever a queue has no unfinished
  task, which is when its \<^verbatim>\<open>join()\<close> returns, the queue is empty, its worker
  holds nothing, and every dish ever put into it lies downstream.
\<close>

theorem status_then_output_then_task_done:
  assumes "exec sched ([], ParallelDishwasher choice r n) = Some (tr, s)"
  shows "(\<exists>m d. m < 4 \<and>
       filter (item_action k) tr = concat (map (cycle k) (acked k tr)) @ take m (cycle k d)) \<and>
    (\<forall>d. worker s k = AtPut d \<longrightarrow> status (dishes s ! d) = target k \<and> d \<notin> set (beyond s k)) \<and>
    handed k tr = beyond s k \<and>
    beyond s k = acked k tr @ unacked (worker s k) \<and>
    (\<forall>d \<in> set (beyond s k). status (dishes s ! d) \<in> set (drop (Suc (idx k)) status_order)) \<and>
    (unfinished_tasks s k = 0 \<longrightarrow>
       queue s k = [] \<and> inflight (worker s k) = [] \<and> enq k tr = beyond s k)"
proof -
  note inv = reach [OF assms(1)]
  have "filter (item_action k) tr = concat (map (cycle k) (acked k tr)) @ partial k (worker s k)"
    using inv(8) by (simp add: inv_cycle_def)
  with partial_take [of k "worker s k"]
  have order: "\<exists>m d. m < 4 \<and>
      filter (item_action k) tr = concat (map (cycle k) (acked k tr)) @ take m (cycle k d)"
    by auto
  have set: "status (dishes s ! d) = target k \<and> d \<notin> set (beyond s k)"
    if "worker s k = AtPut d" for d
    using inv(5) that put_not_beyond [OF inv(1) that] by (simp add: inv_status_def)
  have hb: "handed k tr = beyond s k"
    using inv(1,11,7) by (rule handed_is_beyond)
  have ack: "beyond s k = acked k tr @ unacked (worker s k)"
    using hb inv(7) by (simp add: inv_log_def)
  have st: "\<forall>d \<in> set (beyond s k). status (dishes s ! d) \<in> set (drop (Suc (idx k)) status_order)"
    using beyond_status [OF inv(5)] by blast
  have dr: "queue s k = [] \<and> inflight (worker s k) = [] \<and> enq k tr = beyond s k"
    if "unfinished_tasks s k = 0"
  proof -
    have q: "inflight (worker s k) = []" "queue s k = []"
      using quiet_idle [OF inv(2) that] by simp_all
    then have "unacked (worker s k) = []"
      by (cases "worker s k") simp_all
    with q ack inv(7) show ?thesis
      by (simp add: inv_log_def)
  qed
  from order set hb ack st dr show ?thesis
    by blast
qed

theorem status_then_output_then_task_done_witness:
  "\<exists>tr s tr' s'. exec drain2 ([], ParallelDishwasher pick 42 2) = Some (tr, s) \<and>
     unfinished_tasks s Wash = 0 \<and> queue s Wash = [] \<and> enq Wash tr = beyond s Wash \<and>
     handed Wash tr = beyond s Wash \<and>
     exec mid2 ([], ParallelDishwasher pick 42 2) = Some (tr', s') \<and>
     worker s' PreRinse = AtPut 0 \<and> status (dishes s' ! 0) = ''pre-rinsed'' \<and>
     handed PreRinse tr' = beyond s' PreRinse"
proof -
  obtain tr s s0 where run: "exec drain2 ([], ParallelDishwasher pick 42 2) = Some (tr, s)"
    and c: "coord s = CJoinT [PreRinse, Wash, Dry, Store]"
    and "step (Worker PreRinse) s = Some (Exit PreRinse, s0)"
    by (rule drain2_final)
  note inv = reach [OF run]
  have "6 \<le> rank (coord s)"
    using c by simp
  from drained_state(1) [OF inv(1,2,3) this] have u: "unfinished_tasks s Wash = 0" .
  obtain tr' s' where run': "exec mid2 ([], ParallelDishwasher pick 42 2) = Some (tr', s')"
    and w: "worker s' PreRinse = AtPut 0"
    by (rule mid2_final)
  from status_then_output_then_task_done [OF run, of Wash] u
  have "queue s Wash = []" "enq Wash tr = beyond s Wash" "handed Wash tr = beyond s Wash"
    by blast+
  moreover from status_then_output_then_task_done [OF run', of PreRinse] w
  have "status (dishes s' ! 0) = ''pre-rinsed''" "handed PreRinse tr' = beyond s' PreRinse"
    by auto
  ultimately show ?thesis
    using run u run' w by blast
qed

text \<open>
  Claim C5.  In every run, when a worker leaves its loop the shutdown flag is set, its
  input queue is empty and the queue has no unfinished task: taken dishes have all been
  acknowledged.
\<close>

theorem worker_exits_only_when_drained:
  assumes "exec sched ([], ParallelDishwasher choice r n) = Some (tr, s)"
    and "step (Worker k) s = Some (Exit k, s')"
  shows "stop_event s \<and> queue s k = [] \<and> unfinished_tasks s k = 0 \<and> worker s' k = Exited"
proof -
  note inv = reach [OF assms(1)]
  from assms(2) have st: "worker_step k s = Some (Exit k, s')"
    by (simp add: step_def)
  then have stop: "stop_event s" and ex: "worker s' k = Exited"
    by (cases rule: worker_step_cases; simp)+
  with inv(4) have "6 \<le> rank (coord s)"
    by (simp add: inv_stop_def)
  from drained_state(1,2) [OF inv(1,2,3) this, of k] stop ex show ?thesis
    by simp
qed

theorem worker_exits_only_when_drained_witness:
  "\<exists>tr s s'. exec drain2 ([], ParallelDishwasher pick 42 2) = Some (tr, s) \<and>
     step (Worker PreRinse) s = Some (Exit PreRinse, s') \<and>
     stop_event s \<and> queue s PreRinse = [] \<and> unfinished_tasks s PreRinse = 0 \<and>
     worker s' PreRinse = Exited"
proof -
  obtain tr s s' where run: "exec drain2 ([], ParallelDishwasher pick 42 2) = Some (tr, s)"
    and "coord s = CJoinT [PreRinse, Wash, Dry, Store]"
    and ex: "step (Worker PreRinse) s = Some (Exit PreRinse, s')"
    by (rule drain2_final)
  from worker_exits_only_when_drained [OF run ex] run ex show ?thesis
    by (intro exI [of _ tr] exI [of _ s] exI [of _ s']) simp
qed

text \<open>
  Claim C6 (the code departs from it).  With no dish, neither strategy returns
  metrics.  The pipeline itself finishes, and \<^verbatim>\<open>process_parallel\<close> then raises
  \<^verbatim>\<open>ZeroDivisionError\<close> at \<^verbatim>\<open>dishes_completed/self.num_dishes\<close>;
  \<^verbatim>\<open>process_sequential\<close> raises it at its divisions by \<^verbatim>\<open>self.num_dishes\<close>.
\<close>

theorem zero_dishes_raise:
  "(\<exists>tr s. exec main17 ([], ParallelDishwasher choice r 0) = Some (tr, s) \<and>
      process_parallel ops e s = Some (Inl ZeroDivisionError)) \<and>
   snd (process_sequential ops 0 (fst (seq_generate_dishes choice r 0)) e')
     = Inl ZeroDivisionError"
proof -
  obtain tr s where run: "exec main17 ([], ParallelDishwasher choice r 0) = Some (tr, s)"
    and c: "coord s = CDone 0"
    using zero_run [of choice r] by blast
  have "num_dishes s = 0"
    using reach(6) [OF run] by (simp add: inv_frame_def)
  with c have "process_parallel ops e s = Some (Inl ZeroDivisionError)"
    by (simp add: process_parallel_def par_metrics_zero)
  with run show ?thesis
    by (auto simp: process_sequential_def seq_metrics_zero)
qed




text \<open>
  Claim C8 (the code departs from it).  With no dish, every finished run of the pipeline
  and the sequential strategy leave the same, empty, list of dishes, and neither
  returns a number of dishes processed: both raise \<^verbatim>\<open>ZeroDivisionError\<close>.  For
  one or more dishes the two strategies agree, which is \<open>strategies_agree\<close>.
\<close>

theorem zero_dishes_no_dishes_processed:
  assumes "exec sched ([], ParallelDishwasher choice r 0) = Some (tr, s)"
    and "coord s = CDone c"
  shows "fst (process_sequential ops 0 (fst (seq_generate_dishes choice r 0)) e1) = dishes s \<and>
    snd (process_sequential ops 0 (fst (seq_generate_dishes choice r 0)) e1)
      = Inl ZeroDivisionError \<and>
    process_parallel ops e2 s = Some (Inl ZeroDivisionError)"
proof -
  have "length (dishes s) = 0"
    using reach(13) [OF assms(1)] by simp
  moreover have "fst (seq_generate_dishes choice r 0) = []"
    by (simp add: seq_generate_dishes_def range_py_def)
  moreover have "num_dishes s = 0"
    using reach(6) [OF assms(1)] by (simp add: inv_frame_def)
  moreover have "c = 0"
  proof -
    have "6 \<le> rank (coord s)"
      using assms(2) by simp
    from all_stored(1) [OF assms(1) this] reach(12) [OF assms(1)] assms(2) show ?thesis
      by (simp add: inv_len_def)
  qed
  ultimately show ?thesis
    using assms(2)
    by (simp add: process_sequential_def seq_metrics_zero process_parallel_def par_metrics_zero)
qed

theorem zero_dishes_no_dishes_processed_witness:
  "\<exists>tr s. exec main17 ([], ParallelDishwasher pick 42 0) = Some (tr, s) \<and> coord s = CDone 0 \<and>
     snd (process_sequential exact 0 (fst (seq_generate_dishes pick 42 0)) 1)
       = Inl ZeroDivisionError \<and>
     process_parallel exact 1 s = Some (Inl ZeroDivisionError)"
proof -
  obtain tr s where run: "exec main17 ([], ParallelDishwasher pick 42 0) = Some (tr, s)"
    and c: "coord s = CDone 0"
    using zero_run [of pick 42] by blast
  from zero_dishes_no_dishes_processed [OF run c, of exact 1 1] run c show ?thesis
    by blast
qed

text \<open>
  Claim C9.  In every run and for every queue, the count of unfinished tasks is never
  negative; it is the number of dishes put into the queue less the number
  acknowledged; it is zero exactly when every dish ever put into the queue has been
  taken from it and acknowledged; and once the coordinator has returned from
  \<^verbatim>\<open>join()\<close> on the fourth queue, the counts of all four queues are zero.
\<close>

theorem pending_count_zero_iff_acknowledged:
  assumes "exec sched ([], ParallelDishwasher choice r n) = Some (tr, s)"
  shows "0 \<le> unfinished_tasks s k \<and>
    unfinished_tasks s k = int (length (enq k tr)) - int (length (acked k tr)) \<and>
    (unfinished_tasks s k = 0 \<longleftrightarrow> got k tr = enq k tr \<and> acked k tr = enq k tr) \<and>
    (QueueJoin Store \<in> set tr \<longrightarrow> unfinished_tasks s k = 0)"
proof -
  note inv = reach [OF assms(1)]
  have cnt: "unfinished_tasks s k = int (length (inflight (worker s k)) + length (queue s k))"
    using inv(2) by (simp add: inv_count_def)
  have e: "enq k tr = acked k tr @ inflight (worker s k) @ queue s k"
    and g: "got k tr = acked k tr @ inflight (worker s k)"
    using inv(7) by (simp_all add: inv_log_def)
  have "0 \<le> unfinished_tasks s k"
    using cnt by simp
  moreover have "unfinished_tasks s k = int (length (enq k tr)) - int (length (acked k tr))"
    using cnt e by simp
  moreover have "unfinished_tasks s k = 0 \<longleftrightarrow> got k tr = enq k tr \<and> acked k tr = enq k tr"
  proof
    assume "unfinished_tasks s k = 0"
    from quiet_idle [OF inv(2) this] e g show "got k tr = enq k tr \<and> acked k tr = enq k tr"
      by simp
  next
    assume "got k tr = enq k tr \<and> acked k tr = enq k tr"
    with e have "inflight (worker s k) @ queue s k = []"
      by simp
    with cnt show "unfinished_tasks s k = 0"
      by simp
  qed
  moreover have "unfinished_tasks s k = 0" if "QueueJoin Store \<in> set tr"
  proof -
    have "6 \<le> rank (coord s)"
      using inv(9) that by (rule join_store_rank)
    from drained_state(1) [OF inv(1,2,3) this, of k] show ?thesis .
  qed
  ultimately show ?thesis
    by blast
qed

theorem pending_count_zero_iff_acknowledged_witness:
  "\<exists>tr s. exec sched2 ([], ParallelDishwasher pick 42 2) = Some (tr, s) \<and>
     QueueJoin Store \<in> set tr \<and> unfinished_tasks s Dry = 0 \<and>
     got Dry tr = enq Dry tr \<and> acked Dry tr = enq Dry tr \<and>
     int (length (enq Dry tr)) - int (length (acked Dry tr)) = 0"
proof -
  obtain tr s where run: "exec sched2 ([], ParallelDishwasher pick 42 2) = Some (tr, s)"
    and "coord s = CDone 2" and j: "QueueJoin Store \<in> set tr"
    by (rule sched2_final)
  from pending_count_zero_iff_acknowledged [OF run, of Dry] j have
    "unfinished_tasks s Dry = 0" "got Dry tr = enq Dry tr" "acked Dry tr = enq Dry tr"
    by auto
  with run j show ?thesis
    by (intro exI [of _ tr] exI [of _ s]) simp
qed

text \<open>
  Claim C10.  In every run the sink holds, at every moment, an initial part of the
  dishes in the order they were put into queue 1.  Once the coordinator has returned
  from \<^verbatim>\<open>join()\<close> on the fourth queue, so also when it reads the sink after joining
  the threads, the sink is the whole of that order, which is the order of
  \<^verbatim>\<open>self.dishes\<close>: the identifiers read \<open>1, \<dots>, n\<close>.
\<close>

theorem completed_in_feeding_order:
  assumes "exec sched ([], ParallelDishwasher choice r n) = Some (tr, s)"
  shows "(\<exists>rest. enq PreRinse tr = completed_dishes s @ rest) \<and>
    (QueueJoin Store \<in> set tr \<longrightarrow>
       completed_dishes s = enq PreRinse tr \<and> completed_dishes s = [0..<nat n] \<and>
       map (\<lambda>d. dish_id (dishes s ! d)) (completed_dishes s) = map (\<lambda>i. i + 1) (range_py n))"
proof -
  note inv = reach [OF assms(1)]
  note len = inv(13)
  have ord: "completed_dishes s @ (seg s Store @ seg s Dry @ seg s Wash @ seg s PreRinse)
      @ feed_rest (coord s) (length (dishes s)) = [0..<length (dishes s)]"
    using inv(1) by (simp add: inv_order_def pipeline_def)
  have fd: "enq PreRinse tr @ feed_rest (coord s) (length (dishes s)) = [0..<length (dishes s)]"
    using inv(11) by (simp add: inv_feed_def)
  have "enq PreRinse tr = completed_dishes s @ (seg s Store @ seg s Dry @ seg s Wash @ seg s PreRinse)"
  proof -
    from ord fd have "enq PreRinse tr @ feed_rest (coord s) (length (dishes s))
        = (completed_dishes s @ (seg s Store @ seg s Dry @ seg s Wash @ seg s PreRinse))
          @ feed_rest (coord s) (length (dishes s))"
      by simp
    then show ?thesis
      by (simp only: append_same_eq)
  qed
  then have pre: "\<exists>rest. enq PreRinse tr = completed_dishes s @ rest"
    by blast
  have fin: "completed_dishes s = enq PreRinse tr \<and> completed_dishes s = [0..<nat n] \<and>
       map (\<lambda>d. dish_id (dishes s ! d)) (completed_dishes s) = map (\<lambda>i. i + 1) (range_py n)"
    if "QueueJoin Store \<in> set tr"
  proof -
    have rk: "6 \<le> rank (coord s)"
      using inv(9) that by (rule join_store_rank)
    have sink: "completed_dishes s = [0..<nat n]"
      using drained_state(4) [OF inv(1,2,3) rk] len by simp
    have "feed_rest (coord s) (length (dishes s)) = []"
      using rk by (cases "coord s") simp_all
    with fd len have "enq PreRinse tr = [0..<nat n]"
      by simp
    moreover have "map dish_id (dishes s) = map (\<lambda>i. i + 1) (range_py n)"
    proof -
      have "map dish_id (map (\<lambda>d. d\<lparr>status := []\<rparr>) (dishes s))
          = map dish_id (map (\<lambda>d. d\<lparr>status := []\<rparr>) (fst (par_generate_dishes choice r n)))"
        using inv(6) by (simp add: inv_frame_def)
      then show ?thesis
        using par_generate_props(3) [of choice r n] by (simp add: comp_def)
    qed
    then have "map (\<lambda>d. dish_id (dishes s ! d)) [0..<nat n] = map (\<lambda>i. i + 1) (range_py n)"
      using map_deref [of dish_id "dishes s"] by (simp only: len)
    ultimately show ?thesis
      using sink by simp
  qed
  from pre fin show ?thesis
    by blast
qed

theorem completed_in_feeding_order_witness:
  "\<exists>tr s. exec sched2 ([], ParallelDishwasher pick 42 2) = Some (tr, s) \<and>
     QueueJoin Store \<in> set tr \<and> completed_dishes s = [0, 1] \<and> enq PreRinse tr = [0, 1] \<and>
     map (\<lambda>d. dish_id (dishes s ! d)) (completed_dishes s) = [1, 2]"
proof -
  obtain tr s where run: "exec sched2 ([], ParallelDishwasher pick 42 2) = Some (tr, s)"
    and "coord s = CDone 2" and j: "QueueJoin Store \<in> set tr"
    by (rule sched2_final)
  from completed_in_feeding_order [OF run] j
  have a: "completed_dishes s = enq PreRinse tr" and b: "completed_dishes s = [0..<nat 2]"
    and c: "map (\<lambda>d. dish_id (dishes s ! d)) (completed_dishes s) = map (\<lambda>i. i + 1) (range_py 2)"
    by blast+
  have u: "[0..<nat 2] = [0, 1]" and v: "map (\<lambda>i. i + 1) (range_py 2) = [1, 2]"
    by (simp_all add: range_py_def upt_rec)
  from b u have "completed_dishes s = [0, 1]"
    by simp
  moreover from this a have "enq PreRinse tr = [0, 1]"
    by simp
  moreover from c v have "map (\<lambda>d. dish_id (dishes s ! d)) (completed_dishes s) = [1, 2]"
    by simp
  ultimately show ?thesis
    using run j by (intro exI [of _ tr] exI [of _ s]) simp
qed

end
